theory Spec2Isabelle
  imports Main "HOL-Library.Sublist"
begin

section \<open>Go strings and the functions of package strings that the chunker calls\<close>

text \<open>
  A Go string is a sequence of bytes, here a \<open>string\<close> (a list of 8-bit characters).
  Text is read as UTF-8. A byte below 0x80 is always a code point of its own, and the first
  byte of a multi-byte code point (0xC2 and above) is never taken for the continuation
  of a preceding one, so whether a white-space code point starts at a position is decided by
  the bytes from that position on.
\<close>

abbreviation NL :: char where "NL \<equiv> CHR 0x0A"
abbreviation SP :: char where "SP \<equiv> CHR 0x20"

text \<open>The one-byte white space: tab, line feed, vertical tab, form feed, carriage return, space.\<close>

definition asciiSpace :: "char \<Rightarrow> bool" where
  "asciiSpace c = (c = CHR 0x09 \<or> c = CHR 0x0A \<or> c = CHR 0x0B \<or> c = CHR 0x0C \<or> c = CHR 0x0D \<or> c = CHR 0x20)"

text \<open>The white space of unicode.IsSpace that takes two bytes in UTF-8: U+0085 and U+00A0.\<close>

definition spaces2 :: "string list" where
  "spaces2 = [[CHR 0xC2, CHR 0x85], [CHR 0xC2, CHR 0xA0]]"

text \<open>
  The white space that takes three bytes: U+1680, U+2000 to U+200A, U+2028, U+2029, U+202F,
  U+205F and U+3000.
\<close>

definition spaces3 :: "string list" where
  "spaces3 =
    [[CHR 0xE1, CHR 0x9A, CHR 0x80],
     [CHR 0xE2, CHR 0x80, CHR 0x80], [CHR 0xE2, CHR 0x80, CHR 0x81], [CHR 0xE2, CHR 0x80, CHR 0x82],
     [CHR 0xE2, CHR 0x80, CHR 0x83], [CHR 0xE2, CHR 0x80, CHR 0x84], [CHR 0xE2, CHR 0x80, CHR 0x85],
     [CHR 0xE2, CHR 0x80, CHR 0x86], [CHR 0xE2, CHR 0x80, CHR 0x87], [CHR 0xE2, CHR 0x80, CHR 0x88],
     [CHR 0xE2, CHR 0x80, CHR 0x89], [CHR 0xE2, CHR 0x80, CHR 0x8A],
     [CHR 0xE2, CHR 0x80, CHR 0xA8], [CHR 0xE2, CHR 0x80, CHR 0xA9], [CHR 0xE2, CHR 0x80, CHR 0xAF],
     [CHR 0xE2, CHR 0x81, CHR 0x9F],
     [CHR 0xE3, CHR 0x80, CHR 0x80]]"

text \<open>
  \<open>spaceWidth s\<close> is the number of bytes of the white-space code point that \<open>s\<close> starts
  with, and 0 when \<open>s\<close> starts with none. \<open>spaceWidthEnd s\<close> is the same for the code
  point that \<open>s\<close> ends with.
\<close>

definition spaceWidth :: "string \<Rightarrow> nat" where
  "spaceWidth s =
    (if s \<noteq> [] \<and> asciiSpace (hd s) then 1
     else if take 2 s \<in> set spaces2 then 2
     else if take 3 s \<in> set spaces3 then 3
     else 0)"

definition spaceWidthEnd :: "string \<Rightarrow> nat" where
  "spaceWidthEnd s =
    (if s \<noteq> [] \<and> asciiSpace (last s) then 1
     else if drop (length s - 2) s \<in> set spaces2 then 2
     else if drop (length s - 3) s \<in> set spaces3 then 3
     else 0)"

lemma spaceWidth_Nil [simp]: "spaceWidth [] = 0"
  by (simp add: spaceWidth_def spaces2_def spaces3_def)

lemma spaceWidthEnd_Nil [simp]: "spaceWidthEnd [] = 0"
  by (simp add: spaceWidthEnd_def spaces2_def spaces3_def)

lemma spaceWidth_le: "spaceWidth s \<le> length s"
proof -
  have "take 2 s \<in> set spaces2 \<Longrightarrow> 2 \<le> length s"
    by (auto simp: spaces2_def dest!: arg_cong [where f = length])
  moreover have "take 3 s \<in> set spaces3 \<Longrightarrow> 3 \<le> length s"
    by (auto simp: spaces3_def dest!: arg_cong [where f = length])
  ultimately show ?thesis
    by (cases s) (auto simp: spaceWidth_def)
qed

lemma spaceWidthEnd_le: "spaceWidthEnd s \<le> length s"
proof -
  have "drop (length s - 2) s \<in> set spaces2 \<Longrightarrow> 2 \<le> length s"
    by (auto simp: spaces2_def dest!: arg_cong [where f = length])
  moreover have "drop (length s - 3) s \<in> set spaces3 \<Longrightarrow> 3 \<le> length s"
    by (auto simp: spaces3_def dest!: arg_cong [where f = length])
  ultimately show ?thesis
    by (cases s) (auto simp: spaceWidthEnd_def)
qed

text \<open>
  strings.Fields: the maximal runs of bytes between white space, in order; never an empty
  word. \<open>fieldsFrom w s\<close> scans \<open>s\<close> with the word \<open>w\<close> begun.
\<close>

function fieldsFrom :: "string \<Rightarrow> string \<Rightarrow> string list" where
  "fieldsFrom w [] = (if w = [] then [] else [w])"
| "fieldsFrom w (c # cs) =
    (if spaceWidth (c # cs) = 0 then fieldsFrom (w @ [c]) cs
     else (if w = [] then [] else [w]) @ fieldsFrom [] (drop (spaceWidth (c # cs)) (c # cs)))"
  by pat_completeness auto
termination
  by (relation "measure (\<lambda>(w, s). length s)") auto

definition Fields :: "string \<Rightarrow> string list" where
  "Fields s = fieldsFrom [] s"

text \<open>strings.TrimSpace: the string without its leading and trailing white space.\<close>

function trimLeft :: "string \<Rightarrow> string" where
  "trimLeft s = (if spaceWidth s = 0 then s else trimLeft (drop (spaceWidth s) s))"
  by pat_completeness auto
termination
proof (relation "measure length")
  fix s :: string
  assume "spaceWidth s \<noteq> 0"
  then have "s \<noteq> []" by auto
  with \<open>spaceWidth s \<noteq> 0\<close> show "(drop (spaceWidth s) s, s) \<in> measure length" by simp
qed simp

function trimRight :: "string \<Rightarrow> string" where
  "trimRight s = (if spaceWidthEnd s = 0 then s else trimRight (take (length s - spaceWidthEnd s) s))"
  by pat_completeness auto
termination
proof (relation "measure length")
  fix s :: string
  assume "spaceWidthEnd s \<noteq> 0"
  then have "s \<noteq> []" by auto
  with \<open>spaceWidthEnd s \<noteq> 0\<close> show "(take (length s - spaceWidthEnd s) s, s) \<in> measure length" by simp
qed simp

declare trimLeft.simps [simp del] trimRight.simps [simp del]

definition TrimSpace :: "string \<Rightarrow> string" where
  "TrimSpace s = trimRight (trimLeft s)"

text \<open>strings.TrimSuffix: \<open>s\<close> without the suffix \<open>suf\<close> when it ends with it, \<open>s\<close> otherwise.\<close>

definition TrimSuffix :: "string \<Rightarrow> string \<Rightarrow> string" where
  "TrimSuffix s suf = (if suffix suf s then take (length s - length suf) s else s)"

text \<open>strings.Split with a one-byte separator: the pieces between the separators, one more
  than there are separators.\<close>

fun Split :: "string \<Rightarrow> char \<Rightarrow> string list" where
  "Split [] sep = [[]]"
| "Split (c # cs) sep =
    (if c = sep then [] # Split cs sep
     else (c # hd (Split cs sep)) # tl (Split cs sep))"

text \<open>strings.Join: the elements with \<open>sep\<close> between them.\<close>

fun Join :: "string list \<Rightarrow> string \<Rightarrow> string" where
  "Join [] sep = []"
| "Join [x] sep = x"
| "Join (x # y # ys) sep = x @ sep @ Join (y # ys) sep"

section \<open>The chunker: splitIntoTokenChunks\<close>

text \<open>
  An error is the message that its \<open>Error()\<close> gives; \<open>fmt.Errorf\<close> with \<open>%w\<close> puts
  the message of the wrapped error at the place of the verb.

  The tokenizer is a library outside the repository. The chunker uses it only through
  \<open>len(tokens)\<close> of \<open>enc.Encode(s)\<close>, so a codec is the function that gives this
  number for every string, and \<open>tokenizer.Get\<close> is the value it returned: a codec or an
  error.
\<close>

type_synonym error = string

type_synonym codec = "string \<Rightarrow> nat"

text \<open>
  The state of the two loops is \<open>(chunks, currentChunk, currentTokens)\<close> for the lines and
  \<open>(chunks, wordChunk, wordTokens)\<close> for the words of an oversized line; \<open>wordStep\<close>
  and \<open>lineStep\<close> are one turn of each loop body.
\<close>

definition wordStep :: "codec \<Rightarrow> int \<Rightarrow> string list \<times> string \<times> nat \<Rightarrow> string \<Rightarrow> string list \<times> string \<times> nat" where
  "wordStep count maxTokensPerChunk st word =
    (case st of (chunks, wordChunk, wordTokens) \<Rightarrow>
      let wordWithSpace = word @ [SP];
          wordTokenCount = count wordWithSpace
      in if int (wordTokens + wordTokenCount) > maxTokensPerChunk \<and> wordChunk \<noteq> []
         then (chunks @ [TrimSpace wordChunk], wordWithSpace, wordTokenCount)
         else (chunks, wordChunk @ wordWithSpace, wordTokens + wordTokenCount))"

definition lineStep :: "codec \<Rightarrow> int \<Rightarrow> string list \<times> string \<times> nat \<Rightarrow> string \<Rightarrow> string list \<times> string \<times> nat" where
  "lineStep count maxTokensPerChunk st line =
    (case st of (chunks, currentChunk, currentTokens) \<Rightarrow>
      let lineWithNewline = line @ [NL];
          lineTokenCount = count lineWithNewline;
          st1 = (if int (currentTokens + lineTokenCount) > maxTokensPerChunk \<and> currentChunk \<noteq> []
                 then (chunks @ [TrimSuffix currentChunk [NL]], lineWithNewline, lineTokenCount)
                 else (chunks, currentChunk @ lineWithNewline, currentTokens + lineTokenCount))
      in if int lineTokenCount > maxTokensPerChunk
         then (case foldl (wordStep count maxTokensPerChunk) (fst st1, [], 0) (Fields line) of
                 (chunks2, wordChunk, wordTokens) \<Rightarrow>
                   if wordChunk \<noteq> []
                   then (chunks2, TrimSpace wordChunk @ [NL], count (TrimSpace wordChunk @ [NL]))
                   else (chunks2, snd st1))
         else st1)"

definition splitIntoTokenChunks :: "error + codec \<Rightarrow> string \<Rightarrow> int \<Rightarrow> error + string list" where
  "splitIntoTokenChunks enc text maxTokensPerChunk =
    (case enc of
       Inl err \<Rightarrow> Inl (''failed to get tokenizer: '' @ err)
     | Inr count \<Rightarrow>
        (case foldl (lineStep count maxTokensPerChunk) ([], [], 0) (Split text NL) of
           (chunks, currentChunk, currentTokens) \<Rightarrow>
             Inr (if currentChunk \<noteq> [] then chunks @ [TrimSuffix currentChunk [NL]] else chunks)))"

section \<open>Facts about white space and words\<close>

lemma take2_spaces2: "take 2 a \<in> set spaces2 \<Longrightarrow> \<exists>x y r. a = x # y # r"
  by (cases a; cases "tl a") (auto simp: spaces2_def)

lemma take3_spaces3: "take 3 a \<in> set spaces3 \<Longrightarrow> \<exists>x y z r. a = x # y # z # r"
  by (cases a; cases "tl a"; cases "tl (tl a)") (auto simp: spaces3_def)

lemma sw_mono: "spaceWidth a \<noteq> 0 \<Longrightarrow> spaceWidth (a @ r) = spaceWidth a"
proof -
  have 2: "take 2 a \<in> set spaces2 \<Longrightarrow> take 2 (a @ r) = take 2 a"
    by (auto dest!: take2_spaces2)
  have 3: "take 3 a \<in> set spaces3 \<Longrightarrow> take 3 (a @ r) = take 3 a"
    by (auto dest!: take3_spaces3)
  assume "spaceWidth a \<noteq> 0"
  then show ?thesis
    using 2 3 by (cases a) (auto simp: spaceWidth_def split: if_splits)
qed

text \<open>\<open>lead c\<close>: the byte \<open>c\<close> is the first byte of a white-space code point.\<close>
definition lead :: "char \<Rightarrow> bool" where
  "lead c = (asciiSpace c \<or> c = CHR 0xC2 \<or> c = CHR 0xE1 \<or> c = CHR 0xE2 \<or> c = CHR 0xE3)"

lemma spaces2_lead: "x # r \<in> set spaces2 \<Longrightarrow> lead x"
  by (auto simp: spaces2_def lead_def)

lemma spaces3_lead: "x # r \<in> set spaces3 \<Longrightarrow> lead x"
  by (auto simp: spaces3_def lead_def)

lemma spaces2_cont: "x # y # r \<in> set spaces2 \<Longrightarrow> \<not> lead y"
  by (auto simp: spaces2_def lead_def asciiSpace_def)

lemma spaces3_cont: "x # y # z # r \<in> set spaces3 \<Longrightarrow> \<not> lead y \<and> \<not> lead z"
  by (auto simp: spaces3_def lead_def asciiSpace_def)

lemma spaces3_cont1: "x # y # r \<in> set spaces3 \<Longrightarrow> \<not> lead y"
  by (auto simp: spaces3_def lead_def asciiSpace_def)

lemma sw_lead: assumes "spaceWidth b \<noteq> 0" shows "\<exists>c r. b = c # r \<and> lead c"
proof (cases b)
  case Nil
  with assms show ?thesis by simp
next
  case (Cons c r)
  have "lead c"
  proof (cases "asciiSpace c")
    case True
    then show ?thesis by (simp add: lead_def)
  next
    case False
    with assms Cons have "take 2 b \<in> set spaces2 \<or> take 3 b \<in> set spaces3"
      by (auto simp: spaceWidth_def split: if_splits)
    then show ?thesis
    proof
      assume a: "take 2 b \<in> set spaces2"
      then obtain x y r' where "b = x # y # r'" using take2_spaces2 by blast
      with a Cons show ?thesis by (auto dest: spaces2_lead)
    next
      assume a: "take 3 b \<in> set spaces3"
      then obtain x y z r' where "b = x # y # z # r'" using take3_spaces3 by blast
      with a Cons show ?thesis by (auto dest: spaces3_lead)
    qed
  qed
  with Cons show ?thesis by simp
qed

lemma sw_app_lead:
  assumes "lead c" and "a \<noteq> []"
  shows "spaceWidth (a @ c # r) = spaceWidth a"
proof -
  have 2: "take 2 (a @ c # r) \<in> set spaces2 \<longleftrightarrow> take 2 a \<in> set spaces2"
  proof (cases a)
    case Nil
    with assms show ?thesis by simp
  next
    case (Cons x a')
    show ?thesis
    proof (cases a')
      case Nil
      have "[x] \<notin> set spaces2" by (auto simp: spaces2_def)
      with Cons Nil assms(1) show ?thesis by (auto dest: spaces2_cont)
    next
      case (Cons y a'')
      with \<open>a = x # a'\<close> show ?thesis by simp
    qed
  qed
  have 3: "take 3 (a @ c # r) \<in> set spaces3 \<longleftrightarrow> take 3 a \<in> set spaces3"
  proof (cases a)
    case Nil
    with assms show ?thesis by simp
  next
    case a: (Cons x a')
    show ?thesis
    proof (cases a')
      case Nil
      have "[x] \<notin> set spaces3" by (auto simp: spaces3_def)
      moreover have "x # c # take 1 r \<notin> set spaces3"
        using assms(1) by (auto dest: spaces3_cont1)
      ultimately show ?thesis using a Nil by simp
    next
      case a': (Cons y a'')
      show ?thesis
      proof (cases a'')
        case Nil
        have "[x, y] \<notin> set spaces3" by (auto simp: spaces3_def)
        moreover have "[x, y, c] \<notin> set spaces3"
          using assms(1) by (auto dest: spaces3_cont)
        ultimately show ?thesis using a a' Nil by simp
      next
        case (Cons z a''')
        with a a' show ?thesis by simp
      qed
    qed
  qed
  from assms(2) have "hd (a @ c # r) = hd a" by simp
  with 2 3 assms(2) show ?thesis by (simp add: spaceWidth_def)
qed

lemma sw_app: "spaceWidth b \<noteq> 0 \<Longrightarrow> a \<noteq> [] \<Longrightarrow> spaceWidth (a @ b) = spaceWidth a"
  using sw_lead [of b] sw_app_lead by auto

lemma fieldsFrom_app:
  "spaceWidth b \<noteq> 0 \<Longrightarrow> fieldsFrom w (a @ b) = fieldsFrom w a @ fieldsFrom [] b"
proof (induction w a rule: fieldsFrom.induct)
  case (1 w)
  then obtain c r where "b = c # r" by (cases b) auto
  with 1 show ?case by simp
next
  case (2 w c cs)
  have sw: "spaceWidth ((c # cs) @ b) = spaceWidth (c # cs)"
    using 2(3) by (intro sw_app) auto
  show ?case
  proof (cases "spaceWidth (c # cs) = 0")
    case True
    with 2 sw show ?thesis by simp
  next
    case False
    have "spaceWidth (c # cs) \<le> length (c # cs)" by (rule spaceWidth_le)
    moreover have "\<And>n xs. n \<le> length xs \<Longrightarrow> drop n (xs @ b) = drop n xs @ b"
      by simp
    ultimately have "drop (spaceWidth (c # cs)) ((c # cs) @ b) = drop (spaceWidth (c # cs)) (c # cs) @ b"
      by blast
    with False 2(2) [OF False 2(3)] sw show ?thesis by simp
  qed
qed

lemma sw_ascii: "asciiSpace c \<Longrightarrow> spaceWidth (c # r) = 1"
  by (simp add: spaceWidth_def)

lemma Fields_Nil [simp]: "Fields [] = []"
  by (simp add: Fields_def)

lemma Fields_ascii_Cons: "asciiSpace c \<Longrightarrow> Fields (c # v) = Fields v"
  by (simp add: Fields_def sw_ascii)

lemma Fields_sep: "asciiSpace c \<Longrightarrow> Fields (a @ c # v) = Fields a @ Fields v"
  using fieldsFrom_app [of "c # v" "[]" a] by (simp add: Fields_def sw_ascii)

text \<open>\<open>noSpace u\<close>: no white-space code point starts anywhere in \<open>u\<close>.\<close>

definition noSpace :: "string \<Rightarrow> bool" where
  "noSpace u = (\<forall>i < length u. spaceWidth (drop i u) = 0)"

lemma noSpace_Cons: "noSpace (c # u) \<longleftrightarrow> spaceWidth (c # u) = 0 \<and> noSpace u"
  unfolding noSpace_def
  by (auto simp: less_Suc_eq_0_disj)

lemma fieldsFrom_noSpace: "noSpace u \<Longrightarrow> w @ u \<noteq> [] \<Longrightarrow> fieldsFrom w u = [w @ u]"
  by (induction u arbitrary: w) (auto simp: noSpace_Cons)

lemma Fields_word: "noSpace u \<Longrightarrow> u \<noteq> [] \<Longrightarrow> Fields u = [u]"
  using fieldsFrom_noSpace [of u "[]"] by (simp add: Fields_def)

lemma fieldsFrom_words:
  assumes "\<forall>i < length w. spaceWidth (drop i w @ s) = 0"
    and "u \<in> set (fieldsFrom w s)"
  shows "u \<noteq> [] \<and> noSpace u"
  using assms
proof (induction w s rule: fieldsFrom.induct)
  case (1 w)
  then show ?case by (auto simp: noSpace_def split: if_splits)
next
  case (2 w c cs)
  show ?case
  proof (cases "spaceWidth (c # cs) = 0")
    case True
    have "\<forall>i < length (w @ [c]). spaceWidth (drop i (w @ [c]) @ cs) = 0"
    proof (intro allI impI)
      fix i assume "i < length (w @ [c])"
      then consider "i < length w" | "i = length w" by fastforce
      then show "spaceWidth (drop i (w @ [c]) @ cs) = 0"
      proof cases
        case 1
        with 2(3) show ?thesis by simp
      next
        case 2
        with True show ?thesis by simp
      qed
    qed
    with 2(1) [OF True] 2(4) True show ?thesis by simp
  next
    case False
    from 2(4) False consider "w \<noteq> []" "u = w" | "u \<in> set (fieldsFrom [] (drop (spaceWidth (c # cs)) (c # cs)))"
      by (auto split: if_splits)
    then show ?thesis
    proof cases
      case 1
      have "noSpace w"
        unfolding noSpace_def
      proof (intro allI impI)
        fix i assume i: "i < length w"
        show "spaceWidth (drop i w) = 0"
        proof (rule ccontr)
          assume "spaceWidth (drop i w) \<noteq> 0"
          then have "spaceWidth (drop i w @ c # cs) \<noteq> 0" by (simp add: sw_mono)
          with 2(3) i show False by simp
        qed
      qed
      with 1 show ?thesis by simp
    next
      case 2
      with "2.IH"(2) [OF False] show ?thesis by simp
    qed
  qed
qed

lemma Fields_words: "u \<in> set (Fields s) \<Longrightarrow> u \<noteq> [] \<and> noSpace u"
  using fieldsFrom_words [of "[]" s u] by (simp add: Fields_def)

lemma Fields_Fields: "u \<in> set (Fields s) \<Longrightarrow> Fields u = [u]"
  using Fields_words Fields_word by blast

lemma Fields_trimLeft: "Fields (trimLeft s) = Fields s"
proof (induction s rule: trimLeft.induct)
  case (1 s)
  show ?case
  proof (cases "spaceWidth s = 0")
    case True
    then show ?thesis by (simp add: trimLeft.simps)
  next
    case False
    then obtain c cs where s: "s = c # cs" by (cases s) auto
    from False have "Fields s = Fields (drop (spaceWidth s) s)"
      unfolding s Fields_def by simp
    with 1 False show ?thesis by (subst trimLeft.simps) simp
  qed
qed

lemma spaceWidthEnd_suffix:
  assumes "spaceWidthEnd s \<noteq> 0"
  shows "spaceWidth (drop (length s - spaceWidthEnd s) s) = spaceWidthEnd s"
proof -
  consider (a) "s \<noteq> []" "asciiSpace (last s)" "spaceWidthEnd s = 1"
    | (b) "drop (length s - 2) s \<in> set spaces2" "spaceWidthEnd s = 2"
    | (c) "drop (length s - 3) s \<in> set spaces3" "spaceWidthEnd s = 3"
    using assms by (auto simp: spaceWidthEnd_def split: if_splits)
  then show ?thesis
  proof cases
    case a
    then have "drop (length s - 1) s = [last s]"
      by (metis append_butlast_last_id append_eq_conv_conj length_butlast)
    with a show ?thesis by (simp add: sw_ascii)
  next
    case b
    have "\<forall>p \<in> set spaces2. spaceWidth p = 2"
      by (simp add: spaces2_def spaceWidth_def asciiSpace_def)
    with b show ?thesis by simp
  next
    case c
    have "\<forall>p \<in> set spaces3. spaceWidth p = 3"
      by (simp add: spaces3_def spaces2_def spaceWidth_def asciiSpace_def)
    with c show ?thesis by simp
  qed
qed

lemma Fields_space_only: "spaceWidth p = length p \<Longrightarrow> Fields p = []"
  by (cases p) (auto simp: Fields_def)

lemma Fields_trimRight: "Fields (trimRight s) = Fields s"
proof (induction s rule: trimRight.induct)
  case (1 s)
  show ?case
  proof (cases "spaceWidthEnd s = 0")
    case True
    then show ?thesis by (simp add: trimRight.simps)
  next
    case False
    define n where "n = spaceWidthEnd s"
    have n: "n \<le> length s" unfolding n_def by (rule spaceWidthEnd_le)
    have sw: "spaceWidth (drop (length s - n) s) = n"
      unfolding n_def using False by (rule spaceWidthEnd_suffix)
    have "s = take (length s - n) s @ drop (length s - n) s" by simp
    then have "Fields s = fieldsFrom [] (take (length s - n) s @ drop (length s - n) s)"
      by (simp add: Fields_def)
    also have "\<dots> = Fields (take (length s - n) s) @ Fields (drop (length s - n) s)"
      using sw False unfolding Fields_def n_def by (intro fieldsFrom_app) simp
    also have "Fields (drop (length s - n) s) = []"
      using sw n by (intro Fields_space_only) simp
    finally have "Fields s = Fields (take (length s - n) s)" by simp
    with 1 False show ?thesis unfolding n_def by (subst trimRight.simps) simp
  qed
qed

lemma Fields_TrimSpace: "Fields (TrimSpace s) = Fields s"
  by (simp add: TrimSpace_def Fields_trimRight Fields_trimLeft)

lemma Split_nonempty [simp]: "Split s sep \<noteq> []"
  by (induction s) auto

lemma Join_Cons_hd: "S \<noteq> [] \<Longrightarrow> Join ((c # hd S) # tl S) sep = c # Join S sep"
  by (cases S; cases "tl S") auto

lemma Join_Split: "Join (Split s sep) [sep] = s"
proof (induction s)
  case Nil
  show ?case by simp
next
  case (Cons c cs)
  show ?case
  proof (cases "c = sep")
    case True
    obtain x xs where "Split cs sep = x # xs" by (cases "Split cs sep") auto
    with True Cons show ?thesis by simp
  next
    case False
    with Cons show ?thesis by (simp add: Join_Cons_hd)
  qed
qed

lemma Fields_Join: "asciiSpace c \<Longrightarrow> Fields (Join xs [c]) = concat (map Fields xs)"
  by (induction xs "[c]" rule: Join.induct) (auto simp: Fields_sep)

lemma asciiSpace_NL [simp]: "asciiSpace NL"
  by (simp add: asciiSpace_def)

lemma asciiSpace_SP [simp]: "asciiSpace SP"
  by (simp add: asciiSpace_def)

lemma Fields_Split: "concat (map Fields (Split s NL)) = Fields s"
  using Fields_Join [of NL "Split s NL"] by (simp add: Join_Split)

text \<open>\<open>spaced a\<close>: the buffer \<open>a\<close> is empty or ends with one-byte white space.\<close>

definition spaced :: "string \<Rightarrow> bool" where
  "spaced a = (a = [] \<or> asciiSpace (last a))"

lemma Fields_spaced_app: "spaced a \<Longrightarrow> Fields (a @ v) = Fields a @ Fields v"
proof (cases "a = []")
  case True
  then show ?thesis by simp
next
  case False
  assume "spaced a"
  with False have l: "asciiSpace (last a)" by (simp add: spaced_def)
  from False have a: "a = butlast a @ [last a]" by simp
  have "Fields (a @ v) = Fields (butlast a @ last a # v)"
    by (subst a) simp
  also have "\<dots> = Fields (butlast a) @ Fields v" using l by (rule Fields_sep)
  also have "Fields (butlast a) = Fields (butlast a @ last a # [])"
    using l by (simp add: Fields_sep)
  also have "butlast a @ last a # [] = a" using False by simp
  finally show ?thesis .
qed

lemma spaced_snoc [simp]: "asciiSpace c \<Longrightarrow> spaced (a @ [c])"
  by (simp add: spaced_def)

lemma Fields_snoc: "asciiSpace c \<Longrightarrow> Fields (a @ [c]) = Fields a"
  using Fields_sep [of c a "[]"] by simp

lemma Fields_TrimSuffix: "asciiSpace c \<Longrightarrow> Fields (TrimSuffix a [c]) = Fields a"
proof (cases "suffix [c] a")
  case True
  assume c: "asciiSpace c"
  from True obtain b where "a = b @ [c]" by (auto simp: suffix_def)
  with c show ?thesis by (simp add: TrimSuffix_def Fields_snoc)
next
  case False
  then show ?thesis by (simp add: TrimSuffix_def)
qed

text \<open>The words of a loop state: those of the finished chunks, then those of the buffer.\<close>

definition stateWords :: "string list \<times> string \<times> nat \<Rightarrow> string list" where
  "stateWords st = concat (map Fields (fst st)) @ Fields (fst (snd st))"

lemma wordStep_words:
  assumes "spaced (fst (snd st))" and "Fields word = [word]"
  shows "stateWords (wordStep count m st word) = stateWords st @ [word]
    \<and> spaced (fst (snd (wordStep count m st word)))
    \<and> fst (snd (wordStep count m st word)) \<noteq> []"
proof -
  obtain chunks wordChunk wordTokens where st: "st = (chunks, wordChunk, wordTokens)"
    by (cases st) auto
  have w: "Fields (word @ [SP]) = [word]" using assms(2) by (simp add: Fields_snoc)
  have "Fields (wordChunk @ word @ [SP]) = Fields wordChunk @ [word]"
    using assms(1) w unfolding st by (simp add: Fields_spaced_app)
  moreover have "spaced (wordChunk @ word @ [SP])"
    using spaced_snoc [of SP "wordChunk @ word"] by simp
  ultimately show ?thesis
    unfolding st using w
    by (simp add: wordStep_def stateWords_def Let_def Fields_TrimSpace)
qed

lemma wordLoop_words:
  assumes "spaced (fst (snd st))" and "\<forall>w \<in> set ws. Fields w = [w]"
  shows "stateWords (foldl (wordStep count m) st ws) = stateWords st @ ws
    \<and> spaced (fst (snd (foldl (wordStep count m) st ws)))
    \<and> (ws \<noteq> [] \<longrightarrow> fst (snd (foldl (wordStep count m) st ws)) \<noteq> [])"
  using assms
proof (induction ws rule: rev_induct)
  case Nil
  then show ?case by simp
next
  case (snoc w ws)
  then have IH: "stateWords (foldl (wordStep count m) st ws) = stateWords st @ ws"
    "spaced (fst (snd (foldl (wordStep count m) st ws)))" by auto
  from snoc.prems have "Fields w = [w]" by simp
  from wordStep_words [OF IH(2) this, of count m] IH(1) show ?case by simp
qed

lemma lineStep_words:
  assumes "spaced (fst (snd st))"
  shows "stateWords (lineStep count m st line) = stateWords st @ Fields line
    \<and> spaced (fst (snd (lineStep count m st line)))
    \<and> fst (snd (lineStep count m st line)) \<noteq> []"
proof -
  obtain chunks currentChunk currentTokens where st: "st = (chunks, currentChunk, currentTokens)"
    by (cases st) auto
  define ltc where "ltc = count (line @ [NL])"
  define st1 where "st1 = (if int (currentTokens + ltc) > m \<and> currentChunk \<noteq> []
                 then (chunks @ [TrimSuffix currentChunk [NL]], line @ [NL], ltc)
                 else (chunks, currentChunk @ line @ [NL], currentTokens + ltc))"
  have sp: "spaced currentChunk" using assms by (simp add: st)
  have st1_words: "stateWords st1 = stateWords st @ Fields line"
    using sp by (simp add: st1_def st stateWords_def Fields_TrimSuffix Fields_snoc Fields_spaced_app)
  have st1_sp: "spaced (fst (snd st1))"
    using spaced_snoc [of NL "currentChunk @ line"] by (simp add: st1_def)
  have st1_ne: "fst (snd st1) \<noteq> []" by (simp add: st1_def)
  define r where "r = foldl (wordStep count m) (fst st1, [], 0) (Fields line)"
  have ls: "lineStep count m st line =
      (if int ltc > m
       then (case r of (chunks2, wordChunk, wordTokens) \<Rightarrow>
               if wordChunk \<noteq> []
               then (chunks2, TrimSpace wordChunk @ [NL], count (TrimSpace wordChunk @ [NL]))
               else (chunks2, snd st1))
       else st1)"
    unfolding r_def st1_def ltc_def lineStep_def st by (simp only: Let_def prod.case)
  show ?thesis
  proof (cases "int ltc > m")
    case False
    then have "lineStep count m st line = st1"
      by (simp add: ls)
    with st1_words st1_sp st1_ne show ?thesis by simp
  next
    case True
    then have cur1: "fst (snd st1) = line @ [NL]" by (auto simp: st1_def)
    obtain chunks2 wordChunk wordTokens where r: "r = (chunks2, wordChunk, wordTokens)"
      by (cases r) auto
    have "spaced (fst (snd (fst st1, [] :: string, 0 :: nat)))" by (simp add: spaced_def)
    moreover have "\<forall>w \<in> set (Fields line). Fields w = [w]" by (simp add: Fields_Fields)
    ultimately have wl: "stateWords r = stateWords (fst st1, [], 0) @ Fields line"
      "Fields line \<noteq> [] \<longrightarrow> fst (snd r) \<noteq> []"
      unfolding r_def using wordLoop_words by blast+
    have res: "lineStep count m st line =
        (if wordChunk \<noteq> []
         then (chunks2, TrimSpace wordChunk @ [NL], count (TrimSpace wordChunk @ [NL]))
         else (chunks2, snd st1))"
      using True r by (simp add: ls)
    have base: "concat (map Fields chunks2) @ Fields wordChunk = concat (map Fields (fst st1)) @ Fields line"
      using wl(1) by (simp add: stateWords_def r)
    have st1w: "stateWords st1 = concat (map Fields (fst st1)) @ Fields line"
      by (simp add: stateWords_def cur1 Fields_snoc)
    show ?thesis
    proof (cases "wordChunk = []")
      case False
      with res have "lineStep count m st line = (chunks2, TrimSpace wordChunk @ [NL], count (TrimSpace wordChunk @ [NL]))"
        by simp
      moreover have "stateWords (chunks2, TrimSpace wordChunk @ [NL], count (TrimSpace wordChunk @ [NL])) = stateWords st1"
        using base st1w by (simp add: stateWords_def Fields_snoc Fields_TrimSpace)
      ultimately show ?thesis using st1_words by simp
    next
      case wc: True
      with wl(2) r have "Fields line = []" by auto
      then have "r = (fst st1, [], 0)" by (simp add: r_def)
      with r have "chunks2 = fst st1" by simp
      with res wc have "lineStep count m st line = st1" by simp
      with st1_words st1_sp st1_ne show ?thesis by simp
    qed
  qed
qed

lemma lineLoop_words:
  assumes "spaced (fst (snd st))"
  shows "stateWords (foldl (lineStep count m) st ls) = stateWords st @ concat (map Fields ls)
    \<and> spaced (fst (snd (foldl (lineStep count m) st ls)))"
  using assms
proof (induction ls rule: rev_induct)
  case Nil
  then show ?case by simp
next
  case (snoc l ls)
  then have IH: "stateWords (foldl (lineStep count m) st ls) = stateWords st @ concat (map Fields ls)"
    "spaced (fst (snd (foldl (lineStep count m) st ls)))" by auto
  from lineStep_words [OF IH(2), of count m l] IH(1) show ?case by simp
qed

section \<open>Facts about the budget\<close>

text \<open>
  The totals that the chunker keeps and compares with the budget. For a buffer of lines it
  adds up the count of every line with its line feed; for a buffer of the words of an
  oversized line it adds up the count of every word with a space after it. It never counts
  the tokens of a finished chunk.
\<close>

definition lineTotal :: "codec \<Rightarrow> string \<Rightarrow> nat" where
  "lineTotal count c = sum_list (map (\<lambda>line. count (line @ [NL])) (Split c NL))"

definition wordTotal :: "codec \<Rightarrow> string \<Rightarrow> nat" where
  "wordTotal count c = sum_list (map (\<lambda>word. count (word @ [SP])) (Fields c))"

text \<open>
  A chunk is budgeted when its total over its lines is within the budget, or it is a single
  line whose total over its words is within the budget, or it is a single line of at most
  one word.
\<close>

definition budgeted :: "codec \<Rightarrow> int \<Rightarrow> string \<Rightarrow> bool" where
  "budgeted count m c =
    (int (lineTotal count c) \<le> m
     \<or> NL \<notin> set c \<and> (int (wordTotal count c) \<le> m \<or> length (Fields c) \<le> 1))"

lemma Split_no_sep: "l \<in> set (Split s sep) \<Longrightarrow> sep \<notin> set l"
proof (induction s arbitrary: l)
  case Nil
  then show ?case by simp
next
  case (Cons c s)
  obtain x xs where S: "Split s sep = x # xs" by (cases "Split s sep") auto
  show ?case
  proof (cases "c = sep")
    case True
    with Cons show ?thesis by auto
  next
    case False
    with Cons.prems S have "l = c # x \<or> l \<in> set xs" by auto
    with Cons.IH S False show ?thesis by auto
  qed
qed

lemma Split_single: "sep \<notin> set l \<Longrightarrow> Split l sep = [l]"
  by (induction l) auto

lemma Split_app: "Split (x @ sep # y) sep = Split x sep @ Split y sep"
proof (induction x)
  case Nil
  show ?case by simp
next
  case (Cons c x)
  obtain a as where S: "Split x sep = a # as" by (cases "Split x sep") auto
  with Cons show ?case by simp
qed

lemma lineTotal_single: "NL \<notin> set l \<Longrightarrow> lineTotal count l = count (l @ [NL])"
  by (simp add: lineTotal_def Split_single)

lemma lineTotal_app: "lineTotal count (x @ NL # y) = lineTotal count x + lineTotal count y"
  by (simp add: lineTotal_def Split_app)

lemma noSpace_no_NL: "noSpace w \<Longrightarrow> NL \<notin> set w"
  by (induction w) (auto simp: noSpace_Cons sw_ascii)

lemma set_trimLeft: "set (trimLeft s) \<subseteq> set s"
proof (induction s rule: trimLeft.induct)
  case (1 s)
  show ?case
  proof (cases "spaceWidth s = 0")
    case True
    then show ?thesis by (simp add: trimLeft.simps)
  next
    case False
    have "set (drop (spaceWidth s) s) \<subseteq> set s" by (rule set_drop_subset)
    with 1 [OF False] have "set (trimLeft (drop (spaceWidth s) s)) \<subseteq> set s" by blast
    with False show ?thesis by (subst trimLeft.simps) simp
  qed
qed

lemma set_trimRight: "set (trimRight s) \<subseteq> set s"
proof (induction s rule: trimRight.induct)
  case (1 s)
  show ?case
  proof (cases "spaceWidthEnd s = 0")
    case True
    then show ?thesis by (simp add: trimRight.simps)
  next
    case False
    have "set (take (length s - spaceWidthEnd s) s) \<subseteq> set s" by (rule set_take_subset)
    with 1 [OF False] have "set (trimRight (take (length s - spaceWidthEnd s) s)) \<subseteq> set s" by blast
    with False show ?thesis by (subst trimRight.simps) simp
  qed
qed

lemma set_TrimSpace: "set (TrimSpace s) \<subseteq> set s"
  unfolding TrimSpace_def using set_trimRight set_trimLeft by blast

lemma wordTotal_TrimSpace: "wordTotal count (TrimSpace s) = wordTotal count s"
  by (simp add: wordTotal_def Fields_TrimSpace)

lemma TrimSuffix_snoc [simp]: "TrimSuffix (a @ [c]) [c] = a"
  by (simp add: TrimSuffix_def)

text \<open>The invariant of the word loop and of the line loop.\<close>

definition wordInv :: "codec \<Rightarrow> int \<Rightarrow> string list \<times> string \<times> nat \<Rightarrow> bool" where
  "wordInv count m st =
    ((\<forall>c \<in> set (fst st). budgeted count m c) \<and>
     (fst (snd st) = [] \<and> snd (snd st) = 0
      \<or> fst (snd st) \<noteq> [] \<and> spaced (fst (snd st)) \<and> NL \<notin> set (fst (snd st))
        \<and> snd (snd st) = wordTotal count (fst (snd st))
        \<and> (int (snd (snd st)) \<le> m \<or> length (Fields (fst (snd st))) \<le> 1)))"

definition lineInv :: "codec \<Rightarrow> int \<Rightarrow> string list \<times> string \<times> nat \<Rightarrow> bool" where
  "lineInv count m st =
    ((\<forall>c \<in> set (fst st). budgeted count m c) \<and>
     (fst (snd st) = [] \<and> snd (snd st) = 0
      \<or> (\<exists>x. fst (snd st) = x @ [NL] \<and> snd (snd st) = lineTotal count x \<and> budgeted count m x)))"

lemma wordInv_chunk:
  assumes "wordInv count m (chunks, wordChunk, wordTokens)" and "wordChunk \<noteq> []"
  shows "budgeted count m (TrimSpace wordChunk)"
proof -
  from assms have "NL \<notin> set wordChunk" "wordTokens = wordTotal count wordChunk"
    "int wordTokens \<le> m \<or> length (Fields wordChunk) \<le> 1"
    by (auto simp: wordInv_def)
  moreover have "NL \<notin> set (TrimSpace wordChunk)"
    using \<open>NL \<notin> set wordChunk\<close> set_TrimSpace [of wordChunk] by blast
  ultimately show ?thesis
    by (auto simp: budgeted_def wordTotal_TrimSpace Fields_TrimSpace)
qed

lemma wordStep_inv:
  assumes inv: "wordInv count m st" and w: "word \<noteq> []" "noSpace word"
  shows "wordInv count m (wordStep count m st word)"
proof -
  obtain chunks wordChunk wordTokens where st: "st = (chunks, wordChunk, wordTokens)"
    by (cases st) auto
  define wws where "wws = word @ [SP]"
  have chunks: "\<forall>c \<in> set chunks. budgeted count m c" using inv by (simp add: wordInv_def st)
  have Fw: "Fields word = [word]" using w by (simp add: Fields_word)
  then have Fwws: "Fields wws = [word]" by (simp add: wws_def Fields_snoc)
  have nl: "NL \<notin> set wws" using w(2) by (simp add: wws_def noSpace_no_NL)
  have sp: "spaced wws" "wws \<noteq> []" by (simp_all add: wws_def)
  have tot: "wordTotal count wws = count wws" unfolding wordTotal_def Fwws by (simp add: wws_def)
  show ?thesis
  proof (cases "int (wordTokens + count wws) > m \<and> wordChunk \<noteq> []")
    case True
    then have step: "wordStep count m st word = (chunks @ [TrimSpace wordChunk], wws, count wws)"
      by (simp add: wordStep_def st wws_def Let_def)
    from True inv have "budgeted count m (TrimSpace wordChunk)"
      unfolding st by (intro wordInv_chunk) auto
    with chunks nl sp tot Fwws show ?thesis by (simp add: step wordInv_def)
  next
    case False
    then have step: "wordStep count m st word = (chunks, wordChunk @ wws, wordTokens + count wws)"
      by (auto simp: wordStep_def st wws_def Let_def)
    show ?thesis
    proof (cases "wordChunk = []")
      case True
      with inv have "wordTokens = 0" by (simp add: wordInv_def st)
      with True chunks nl sp tot Fwws show ?thesis by (simp add: step wordInv_def)
    next
      case ne: False
      with inv have wc: "spaced wordChunk" "NL \<notin> set wordChunk" "wordTokens = wordTotal count wordChunk"
        by (simp_all add: wordInv_def st)
      from ne False have le: "int (wordTokens + count wws) \<le> m" by simp
      have F: "Fields (wordChunk @ wws) = Fields wordChunk @ [word]"
        using wc(1) Fwws by (simp add: Fields_spaced_app)
      then have t: "wordTotal count (wordChunk @ wws) = wordTokens + count wws"
        by (simp add: wordTotal_def wc(3) wws_def)
      have s: "spaced (wordChunk @ wws)"
        using spaced_snoc [of SP "wordChunk @ word"] by (simp add: wws_def)
      from chunks wc(2) nl le t s ne show ?thesis by (simp add: step wordInv_def)
    qed
  qed
qed

lemma wordLoop_inv:
  assumes "wordInv count m st" and "\<forall>w \<in> set ws. w \<noteq> [] \<and> noSpace w"
  shows "wordInv count m (foldl (wordStep count m) st ws)"
  using assms
proof (induction ws rule: rev_induct)
  case Nil
  then show ?case by simp
next
  case (snoc w ws)
  then show ?case using wordStep_inv by simp
qed

lemma lineStep_inv:
  assumes inv: "lineInv count m st" and line: "NL \<notin> set line"
  shows "lineInv count m (lineStep count m st line)"
proof -
  obtain chunks currentChunk currentTokens where st: "st = (chunks, currentChunk, currentTokens)"
    by (cases st) auto
  define ltc where "ltc = count (line @ [NL])"
  define st1 where "st1 = (if int (currentTokens + ltc) > m \<and> currentChunk \<noteq> []
                 then (chunks @ [TrimSuffix currentChunk [NL]], line @ [NL], ltc)
                 else (chunks, currentChunk @ line @ [NL], currentTokens + ltc))"
  define r where "r = foldl (wordStep count m) (fst st1, [], 0) (Fields line)"
  have ls: "lineStep count m st line =
      (if int ltc > m
       then (case r of (chunks2, wordChunk, wordTokens) \<Rightarrow>
               if wordChunk \<noteq> []
               then (chunks2, TrimSpace wordChunk @ [NL], count (TrimSpace wordChunk @ [NL]))
               else (chunks2, snd st1))
       else st1)"
    unfolding r_def st1_def ltc_def lineStep_def st by (simp only: Let_def prod.case)
  have ltot: "lineTotal count line = ltc" using line by (simp add: lineTotal_single ltc_def)
  have chunks: "\<forall>c \<in> set chunks. budgeted count m c" using inv by (simp add: lineInv_def st)
  have cur: "currentChunk = [] \<and> currentTokens = 0
      \<or> (\<exists>x. currentChunk = x @ [NL] \<and> currentTokens = lineTotal count x \<and> budgeted count m x)"
    using inv by (simp add: lineInv_def st)
  have chunks1: "\<forall>c \<in> set (fst st1). budgeted count m c"
    using chunks cur by (auto simp: st1_def)
  \<comment> \<open>the buffer after the line is added, and its total\<close>
  have buf1: "\<exists>x. fst (snd st1) = x @ [NL] \<and> snd (snd st1) = lineTotal count x
      \<and> (int ltc \<le> m \<or> Fields line = [] \<longrightarrow> budgeted count m x)
      \<and> (int ltc > m \<longrightarrow> x = line)"
  proof (cases "int (currentTokens + ltc) > m \<and> currentChunk \<noteq> []")
    case True
    then have "fst (snd st1) = line @ [NL]" "snd (snd st1) = lineTotal count line"
      by (simp_all add: st1_def ltot)
    moreover have "int ltc \<le> m \<or> Fields line = [] \<longrightarrow> budgeted count m line"
      using line ltot by (auto simp: budgeted_def)
    ultimately show ?thesis by blast
  next
    case False
    show ?thesis
    proof (cases "currentChunk = []")
      case True
      with cur have "currentTokens = 0" by auto
      with True False have "fst (snd st1) = line @ [NL]" "snd (snd st1) = lineTotal count line"
        by (simp_all add: st1_def ltot)
      moreover have "int ltc \<le> m \<or> Fields line = [] \<longrightarrow> budgeted count m line"
        using line ltot by (auto simp: budgeted_def)
      ultimately show ?thesis by blast
    next
      case ne: False
      with cur obtain x where x: "currentChunk = x @ [NL]" "currentTokens = lineTotal count x" by auto
      from ne False have le: "int (currentTokens + ltc) \<le> m" by simp
      then have small: "\<not> int ltc > m" by simp
      from False have "fst (snd st1) = (x @ NL # line) @ [NL]" "snd (snd st1) = currentTokens + ltc"
        by (auto simp: st1_def x(1))
      moreover have "lineTotal count (x @ NL # line) = currentTokens + ltc"
        by (simp add: lineTotal_app x(2) ltot)
      moreover from this le have "budgeted count m (x @ NL # line)" by (simp add: budgeted_def)
      ultimately show ?thesis using small by metis
    qed
  qed
  then obtain x1 where x1: "fst (snd st1) = x1 @ [NL]" "snd (snd st1) = lineTotal count x1"
    "int ltc \<le> m \<or> Fields line = [] \<Longrightarrow> budgeted count m x1" "int ltc > m \<Longrightarrow> x1 = line"
    by blast
  have inv1: "int ltc \<le> m \<or> Fields line = [] \<Longrightarrow> lineInv count m st1"
    using chunks1 x1 by (auto simp: lineInv_def)
  show ?thesis
  proof (cases "int ltc > m")
    case False
    with ls have "lineStep count m st line = st1" by simp
    with False inv1 show ?thesis by simp
  next
    case True
    obtain chunks2 wordChunk wordTokens where r: "r = (chunks2, wordChunk, wordTokens)"
      by (cases r) auto
    have "wordInv count m (fst st1, [], 0)" using chunks1 by (simp add: wordInv_def)
    moreover have "\<forall>w \<in> set (Fields line). w \<noteq> [] \<and> noSpace w" using Fields_words by blast
    ultimately have wi: "wordInv count m r" unfolding r_def by (intro wordLoop_inv)
    have res: "lineStep count m st line =
        (if wordChunk \<noteq> []
         then (chunks2, TrimSpace wordChunk @ [NL], count (TrimSpace wordChunk @ [NL]))
         else (chunks2, snd st1))"
      using True r by (simp add: ls)
    show ?thesis
    proof (cases "wordChunk = []")
      case False
      from wi have c2: "\<forall>c \<in> set chunks2. budgeted count m c" by (simp add: wordInv_def r)
      from wi False have b: "budgeted count m (TrimSpace wordChunk)"
        unfolding r by (rule wordInv_chunk)
      from wi False have "NL \<notin> set wordChunk" by (simp add: wordInv_def r)
      then have "NL \<notin> set (TrimSpace wordChunk)" using set_TrimSpace [of wordChunk] by blast
      then have "lineTotal count (TrimSpace wordChunk) = count (TrimSpace wordChunk @ [NL])"
        by (rule lineTotal_single)
      with False res c2 b show ?thesis by (simp add: lineInv_def)
    next
      case wc: True
      have "Fields line = []"
      proof (rule ccontr)
        assume "Fields line \<noteq> []"
        moreover have "spaced (fst (snd (fst st1, [] :: string, 0 :: nat)))" by (simp add: spaced_def)
        moreover have "\<forall>w \<in> set (Fields line). Fields w = [w]" by (simp add: Fields_Fields)
        ultimately have "fst (snd r) \<noteq> []" unfolding r_def using wordLoop_words by blast
        with r wc show False by simp
      qed
      then have "r = (fst st1, [], 0)" by (simp add: r_def)
      with r have "chunks2 = fst st1" by simp
      with res wc have "lineStep count m st line = st1" by simp
      with \<open>Fields line = []\<close> inv1 show ?thesis by simp
    qed
  qed
qed

lemma lineLoop_inv:
  assumes "lineInv count m st" and "\<forall>l \<in> set ls. NL \<notin> set l"
  shows "lineInv count m (foldl (lineStep count m) st ls)"
  using assms
proof (induction ls rule: rev_induct)
  case Nil
  then show ?case by simp
next
  case (snoc l ls)
  then show ?case using lineStep_inv by simp
qed

text \<open>
  A tokenizer of bytes with one merged token, for the three bytes semicolon, carriage return,
  line feed, as byte-pair tokenizers have for frequent sequences: every other byte is a token
  of its own.
\<close>

fun mergeCount :: "string \<Rightarrow> nat" where
  "mergeCount (a # b # c # s) =
    (if a = CHR '';'' \<and> b = CHR 0x0D \<and> c = NL then 1 + mergeCount s
     else 1 + mergeCount (b # c # s))"
| "mergeCount s = length s"

section \<open>The orchestrator: processChunk and ProcessWithClient\<close>

subsection \<open>Formatting and path names\<close>

text \<open>The verb \<open>%d\<close> of fmt on a number that is not negative: its decimal digits.\<close>

definition digitChar :: "nat \<Rightarrow> char" where
  "digitChar d = ''0123456789'' ! d"

function decimal :: "nat \<Rightarrow> string" where
  "decimal n = (if n < 10 then [digitChar n] else decimal (n div 10) @ [digitChar (n mod 10)])"
  by pat_completeness auto
termination
  by (relation "measure id") auto

declare decimal.simps [simp del]

text \<open>strings.ToLower, on the letters A to Z. Go also maps the capital letters beyond ASCII;
  none of them has y, e or s for its lower case, the only letters the answer is compared
  with.\<close>

definition lowerChar :: "char \<Rightarrow> char" where
  "lowerChar c =
    (case map_of (zip ''ABCDEFGHIJKLMNOPQRSTUVWXYZ'' ''abcdefghijklmnopqrstuvwxyz'') c of
       Some l \<Rightarrow> l
     | None \<Rightarrow> c)"

definition ToLower :: "string \<Rightarrow> string" where
  "ToLower s = map lowerChar s"

text \<open>
  filepath.Ext: the suffix of the path from the last dot of its last element on, empty when
  that element has no dot.
\<close>

definition Ext :: "string \<Rightarrow> string" where
  "Ext path =
    (case dropWhile (\<lambda>c. c \<noteq> CHR ''.'' \<and> c \<noteq> CHR ''/'') (rev path) of
       [] \<Rightarrow> []
     | c # _ \<Rightarrow>
         if c = CHR ''.''
         then c # rev (takeWhile (\<lambda>c. c \<noteq> CHR ''.'' \<and> c \<noteq> CHR ''/'') (rev path))
         else [])"

text \<open>
  filepath.Join of a directory and a file name. Join also cleans the result lexically (doubled
  separators, dot and dot-dot elements); that changes the spelling of the directory part and
  not the file that the path names, and the model leaves the directory as it is given.
\<close>

definition filepathJoin :: "string \<Rightarrow> string \<Rightarrow> string" where
  "filepathJoin dir name = (if dir = [] then name else dir @ ''/'' @ name)"

definition chunkFileName :: "string \<Rightarrow> nat \<Rightarrow> string" where
  "chunkFileName chunkDir i = filepathJoin chunkDir (''chunk'' @ decimal (i + 1) @ ''.txt'')"

definition resultFileName :: "string \<Rightarrow> nat \<Rightarrow> string" where
  "resultFileName chunkDir i = filepathJoin chunkDir (''result'' @ decimal (i + 1) @ ''.txt'')"

definition combinedFileName :: "string \<Rightarrow> string" where
  "combinedFileName filePath = TrimSuffix filePath (Ext filePath) @ ''.combined_results.txt''"


subsection \<open>The file system and the generation capability\<close>

text \<open>
  The file system is a map from path names to what is there: a file with its bytes, or a
  directory. Path names are compared as strings, each names its own file (no links).
  Reading fails where there is no file; writing fails on a directory; creating a directory
  fails on a file and on the empty name. A write needs the directory it writes into: the
  program writes into the chunk directory that MkdirAll has just made, and next to the
  document it has just read, so the model does not ask for it again.
\<close>

datatype node = File string | Dir

type_synonym fs = "string \<Rightarrow> node option"

definition ReadFile :: "fs \<Rightarrow> string \<Rightarrow> error + string" where
  "ReadFile files name =
    (case files name of
       Some (File bytes) \<Rightarrow> Inr bytes
     | Some Dir \<Rightarrow> Inl (''read '' @ name @ '': is a directory'')
     | None \<Rightarrow> Inl (''open '' @ name @ '': no such file or directory''))"

definition WriteFile :: "fs \<Rightarrow> string \<Rightarrow> string \<Rightarrow> error + fs" where
  "WriteFile files name bytes =
    (case files name of
       Some Dir \<Rightarrow> Inl (''open '' @ name @ '': is a directory'')
     | _ \<Rightarrow> Inr (files(name \<mapsto> File bytes)))"

definition MkdirAll :: "fs \<Rightarrow> string \<Rightarrow> error + fs" where
  "MkdirAll files name =
    (if name = [] then Inl (''mkdir : no such file or directory'')
     else case files name of
       Some (File bytes) \<Rightarrow> Inl (''mkdir '' @ name @ '': not a directory'')
     | _ \<Rightarrow> Inr (files(name \<mapsto> Dir)))"

text \<open>
  A request is what processChunk sends: the model, the system message (the prompt) and the
  user message (the chunk). The answer is an error or the contents of the messages of the
  choices of the completion. A run asks at most once for each chunk, so the capability is
  given by the answer it makes to the call for chunk \<open>i\<close> in this run; this covers a
  client with a state and every order in which the calls reach it.
\<close>

record request =
  reqModel :: string
  systemMessage :: string
  userMessage :: string

type_synonym generator = "nat \<Rightarrow> request \<Rightarrow> error + string list"

text \<open>
  The world that a run changes: the files, and the log of the generation calls made (the
  index of the chunk of each call). What the program prints is not modelled.
\<close>

record world =
  files :: fs
  calls :: "nat list"

subsection \<open>processChunk\<close>

definition processChunk ::
  "generator \<Rightarrow> string \<Rightarrow> nat \<Rightarrow> string \<Rightarrow> string \<Rightarrow> string \<Rightarrow> world \<Rightarrow> (error + string) \<times> world" where
  "processChunk client model i chunkDir prompt chunk w =
    (case ReadFile (files w) (resultFileName chunkDir i) of
       Inr existingResult \<Rightarrow> (Inr existingResult, w)
     | Inl _ \<Rightarrow>
        (case WriteFile (files w) (chunkFileName chunkDir i) chunk of
           Inl err \<Rightarrow> (Inl (''failed to write chunk '' @ decimal (i + 1) @ '': '' @ err), w)
         | Inr files1 \<Rightarrow>
            (let w1 = w\<lparr>files := files1, calls := calls w @ [i]\<rparr> in
             case client i \<lparr>reqModel = model, systemMessage = prompt, userMessage = chunk\<rparr> of
               Inl err \<Rightarrow>
                 (Inl (''failed to generate chat completion for chunk '' @ decimal (i + 1) @ '': '' @ err), w1)
             | Inr choices \<Rightarrow>
                 if length choices > 0 \<and> hd choices \<noteq> []
                 then (let content = hd choices in
                       case WriteFile (files w1) (resultFileName chunkDir i) content of
                         Inl err \<Rightarrow> (Inr content, w1)
                       | Inr files2 \<Rightarrow> (Inr content, w1\<lparr>files := files2\<rparr>))
                 else (Inl (''no content in response for chunk '' @ decimal (i + 1)), w1))))"

subsection \<open>ProcessWithClient\<close>

text \<open>
  estimateTokens counts the tokens of the whole text; the count and the costs that it prints
  have no part in what follows. The loop over \<open>os.Stat\<close> that counts the results already
  in the cache only feeds a message, and is left out with the messages.
\<close>

record TokenEstimation =
  TokensCount :: nat

definition estimateTokens :: "error + codec \<Rightarrow> string \<Rightarrow> error + TokenEstimation" where
  "estimateTokens enc text =
    (case enc of
       Inl err \<Rightarrow> Inl (''failed to get tokenizer: '' @ err)
     | Inr count \<Rightarrow> Inr \<lparr>TokensCount = count text\<rparr>)"

text \<open>
  The goroutines of the errgroup. One is started for every chunk, none is held back (the
  group has no limit, and processChunk does not look at the context before it works), and
  Wait gives the error of the first one that returned an error. Two of them never touch the
  same file, so a run is the tasks one after the other in the order in which they finish:
  \<open>finish i\<close> is the time at which the task of chunk \<open>i\<close> ends. The state of the tasks is
  the slice \<open>results\<close>, the first error of the group, and the world.
\<close>

definition taskStep ::
  "generator \<Rightarrow> string \<Rightarrow> string \<Rightarrow> string \<Rightarrow> string list
    \<Rightarrow> string list \<times> error option \<times> world \<Rightarrow> nat \<Rightarrow> string list \<times> error option \<times> world" where
  "taskStep client model chunkDir prompt chunks st i =
    (case st of (results, firstErr, w) \<Rightarrow>
      (case processChunk client model i chunkDir prompt (chunks ! i) w of
         (Inl err, w') \<Rightarrow> (results, (case firstErr of None \<Rightarrow> Some err | Some e \<Rightarrow> Some e), w')
       | (Inr result, w') \<Rightarrow> (results[i := result], firstErr, w')))"

definition taskOrder :: "(nat \<Rightarrow> nat) \<Rightarrow> nat \<Rightarrow> nat list" where
  "taskOrder finish n = sort_key finish [0..<n]"

definition runTasks ::
  "generator \<Rightarrow> string \<Rightarrow> string \<Rightarrow> string \<Rightarrow> string list \<Rightarrow> (nat \<Rightarrow> nat) \<Rightarrow> world
    \<Rightarrow> string list \<times> error option \<times> world" where
  "runTasks client model chunkDir prompt chunks finish w =
    foldl (taskStep client model chunkDir prompt chunks)
      (replicate (length chunks) [], None, w)
      (taskOrder finish (length chunks))"

text \<open>
  \<open>response\<close> is what \<open>fmt.Scanln\<close> stores of the line that the user types; it is read
  only when \<open>requireConfirmation\<close> is set.
\<close>

definition ProcessWithClient ::
  "error + codec \<Rightarrow> generator \<Rightarrow> (nat \<Rightarrow> nat) \<Rightarrow> string
    \<Rightarrow> string \<Rightarrow> string \<Rightarrow> string \<Rightarrow> bool \<Rightarrow> world \<Rightarrow> error option \<times> world" where
  "ProcessWithClient enc client finish response model prompt filePath requireConfirmation w =
    (case ReadFile (files w) filePath of
       Inl err \<Rightarrow> (Some (''failed to read file: '' @ err), w)
     | Inr text \<Rightarrow>
    (case estimateTokens enc text of
       Inl err \<Rightarrow> (Some (''failed to estimate tokens: '' @ err), w)
     | Inr totalEstimation \<Rightarrow>
    (case splitIntoTokenChunks enc text 2000 of
       Inl err \<Rightarrow> (Some (''failed to split into chunks: '' @ err), w)
     | Inr chunks \<Rightarrow>
    if requireConfirmation
       \<and> ToLower (TrimSpace response) \<noteq> ''yes'' \<and> ToLower (TrimSpace response) \<noteq> ''y''
    then (None, w)
    else
      (let chunkDir = TrimSuffix filePath (Ext filePath) in
       case MkdirAll (files w) chunkDir of
         Inl err \<Rightarrow> (Some (''failed to create chunk directory: '' @ err), w)
       | Inr files1 \<Rightarrow>
          (let prompt' = prompt @ [NL] @ ''Return the lines that you want to keep.'' in
           case runTasks client model chunkDir prompt' chunks finish (w\<lparr>files := files1\<rparr>) of
             (results, Some err, w2) \<Rightarrow>
               (Some (''failed to wait for all subtasks to complete: '' @ err), w2)
           | (results, None, w2) \<Rightarrow>
               (case WriteFile (files w2) (combinedFileName filePath) (concat results) of
                  Inl err \<Rightarrow> (Some (''failed to write combined results: '' @ err), w2)
                | Inr files3 \<Rightarrow> (None, w2\<lparr>files := files3\<rparr>)))))))"

section \<open>Facts about names, files and tasks\<close>

lemma decimal_nonempty [simp]: "decimal n \<noteq> []"
  by (subst decimal.simps) simp

lemma digitChar_inj: "a < 10 \<Longrightarrow> b < 10 \<Longrightarrow> digitChar a = digitChar b \<Longrightarrow> a = b"
proof -
  have "distinct ''0123456789''" by simp
  moreover assume "a < 10" "b < 10" "digitChar a = digitChar b"
  ultimately show "a = b"
    unfolding digitChar_def by (simp add: nth_eq_iff_index_eq)
qed

lemma decimal_small: "n < 10 \<Longrightarrow> decimal n = [digitChar n]"
  by (subst decimal.simps) simp

lemma decimal_big: "\<not> n < 10 \<Longrightarrow> decimal n = decimal (n div 10) @ [digitChar (n mod 10)]"
  by (subst decimal.simps) simp

lemma decimal_length: "length (decimal n) = 1 \<longleftrightarrow> n < 10"
proof (cases "n < 10")
  case True
  then show ?thesis by (simp add: decimal_small)
next
  case False
  have "length (decimal (n div 10)) \<noteq> 0" by simp
  with False show ?thesis by (simp add: decimal_big del: length_0_conv)
qed

lemma decimal_inj: "decimal a = decimal b \<Longrightarrow> a = b"
proof (induction a arbitrary: b rule: decimal.induct)
  case (1 n)
  from 1(2) have len: "n < 10 \<longleftrightarrow> b < 10"
    using decimal_length [of n] decimal_length [of b] by simp
  show ?case
  proof (cases "n < 10")
    case True
    with len 1(2) show ?thesis by (auto simp: decimal_small dest: digitChar_inj)
  next
    case False
    with len 1(2) have "decimal (n div 10) = decimal (b div 10)" "digitChar (n mod 10) = digitChar (b mod 10)"
      by (simp_all add: decimal_big)
    with 1(1) [OF False, of "b div 10"] have "n div 10 = b div 10" "n mod 10 = b mod 10"
      by (simp_all add: digitChar_inj)
    then show ?thesis by (metis div_mult_mod_eq)
  qed
qed

lemma resultFileName_inj: "resultFileName d i = resultFileName d j \<Longrightarrow> i = j"
  by (auto simp: resultFileName_def filepathJoin_def dest: decimal_inj split: if_splits)

lemma chunkFileName_inj: "chunkFileName d i = chunkFileName d j \<Longrightarrow> i = j"
  by (auto simp: chunkFileName_def filepathJoin_def dest: decimal_inj split: if_splits)

lemma chunk_neq_result [simp]: "chunkFileName d i \<noteq> resultFileName d j"
  by (auto simp: resultFileName_def chunkFileName_def filepathJoin_def)

lemma result_neq_chunk [simp]: "resultFileName d j \<noteq> chunkFileName d i"
  using chunk_neq_result [of d i j] by (rule not_sym)

lemma result_neq_dir [simp]: "resultFileName d i \<noteq> d"
  by (auto simp: resultFileName_def filepathJoin_def)

lemma chunk_neq_dir [simp]: "chunkFileName d i \<noteq> d"
  by (auto simp: chunkFileName_def filepathJoin_def)

lemma combined_neq_dir [simp]: "combinedFileName p \<noteq> TrimSuffix p (Ext p)"
  by (simp add: combinedFileName_def)

lemma combined_neq_result [simp]: "combinedFileName p \<noteq> resultFileName (TrimSuffix p (Ext p)) i"
  by (auto simp: combinedFileName_def resultFileName_def filepathJoin_def)

lemma combined_neq_chunk [simp]: "combinedFileName p \<noteq> chunkFileName (TrimSuffix p (Ext p)) i"
  by (auto simp: combinedFileName_def chunkFileName_def filepathJoin_def)

text \<open>The extension is a suffix of the path, is empty or starts with its only dot, and has no separator.\<close>

lemma Ext_cases:
  "Ext p = [] \<or> (\<exists>t. Ext p = CHR ''.'' # t \<and> CHR ''.'' \<notin> set t \<and> CHR ''/'' \<notin> set t)"
proof -
  let ?P = "\<lambda>c. c \<noteq> CHR ''.'' \<and> c \<noteq> CHR ''/''"
  have "\<And>c. c \<in> set (takeWhile ?P (rev p)) \<Longrightarrow> ?P c" by (rule set_takeWhileD [THEN conjunct2])
  then have "CHR ''.'' \<notin> set (rev (takeWhile ?P (rev p))) \<and> CHR ''/'' \<notin> set (rev (takeWhile ?P (rev p)))"
    unfolding set_rev by blast
  then show ?thesis
    by (auto simp: Ext_def split: list.splits)
qed

lemma Ext_Cons: "Ext p = c # t \<Longrightarrow> c = CHR ''.'' \<and> CHR ''.'' \<notin> set t \<and> CHR ''/'' \<notin> set t"
  using Ext_cases [of p] by auto

lemma Ext_suffix: "suffix (Ext p) p"
proof -
  let ?P = "\<lambda>c. c \<noteq> CHR ''.'' \<and> c \<noteq> CHR ''/''"
  have "rev p = takeWhile ?P (rev p) @ dropWhile ?P (rev p)" by simp
  then have p: "p = rev (dropWhile ?P (rev p)) @ rev (takeWhile ?P (rev p))"
    by (metis rev_append rev_rev_ident)
  show ?thesis
  proof (cases "dropWhile ?P (rev p)")
    case Nil
    show ?thesis unfolding Ext_def Nil by simp
  next
    case (Cons c r)
    show ?thesis
    proof (cases "c = CHR ''.''")
      case True
      with Cons have "Ext p = c # rev (takeWhile ?P (rev p))" by (simp add: Ext_def)
      moreover from p Cons have "p = rev r @ c # rev (takeWhile ?P (rev p))" by simp
      ultimately show ?thesis by (metis suffixI)
    next
      case False
      with Cons show ?thesis by (simp add: Ext_def)
    qed
  qed
qed

lemma TrimSuffix_app: "TrimSuffix (a @ e) e = a"
  by (simp add: TrimSuffix_def suffix_def)

lemma base_Ext: "TrimSuffix p (Ext p) @ Ext p = p"
proof -
  obtain zs where "p = zs @ Ext p" using Ext_suffix [of p] by (auto simp: suffix_def)
  then show ?thesis using TrimSuffix_app [of zs "Ext p"] by simp
qed

lemma path_neq_combined [simp]: "combinedFileName p \<noteq> p"
proof
  assume "combinedFileName p = p"
  then have "TrimSuffix p (Ext p) @ ''.combined_results.txt'' = TrimSuffix p (Ext p) @ Ext p"
    by (simp add: combinedFileName_def base_Ext)
  then have "Ext p = CHR ''.'' # ''combined_results.txt''" by simp
  from Ext_Cons [OF this] show False by simp
qed

lemma path_neq_result [simp]: "resultFileName (TrimSuffix p (Ext p)) i \<noteq> p"
proof
  assume a: "resultFileName (TrimSuffix p (Ext p)) i = p"
  show False
  proof (cases "TrimSuffix p (Ext p) = []")
    case True
    with base_Ext [of p] have "Ext p = p" by simp
    with a True have "Ext p = CHR ''r'' # ''esult'' @ decimal (i + 1) @ ''.txt''"
      by (simp add: resultFileName_def filepathJoin_def)
    from Ext_Cons [OF this] show False by simp
  next
    case False
    with a have "TrimSuffix p (Ext p) @ ''/result'' @ decimal (i + 1) @ ''.txt'' = TrimSuffix p (Ext p) @ Ext p"
      by (simp add: resultFileName_def filepathJoin_def base_Ext)
    then have "Ext p = CHR ''/'' # ''result'' @ decimal (i + 1) @ ''.txt''" by simp
    from Ext_Cons [OF this] show False by simp
  qed
qed

lemma path_neq_chunk [simp]: "chunkFileName (TrimSuffix p (Ext p)) i \<noteq> p"
proof
  assume a: "chunkFileName (TrimSuffix p (Ext p)) i = p"
  show False
  proof (cases "TrimSuffix p (Ext p) = []")
    case True
    with base_Ext [of p] have "Ext p = p" by simp
    with a True have "Ext p = CHR ''c'' # ''hunk'' @ decimal (i + 1) @ ''.txt''"
      by (simp add: chunkFileName_def filepathJoin_def)
    from Ext_Cons [OF this] show False by simp
  next
    case False
    with a have "TrimSuffix p (Ext p) @ ''/chunk'' @ decimal (i + 1) @ ''.txt'' = TrimSuffix p (Ext p) @ Ext p"
      by (simp add: chunkFileName_def filepathJoin_def base_Ext)
    then have "Ext p = CHR ''/'' # ''chunk'' @ decimal (i + 1) @ ''.txt''" by simp
    from Ext_Cons [OF this] show False by simp
  qed
qed

text \<open>Reading and writing.\<close>

lemma ReadFile_Inr: "ReadFile fs p = Inr c \<longleftrightarrow> fs p = Some (File c)"
  by (auto simp: ReadFile_def split: option.splits node.splits)

lemma WriteFile_Inr: "WriteFile fs p c = Inr fs' \<longleftrightarrow> fs p \<noteq> Some Dir \<and> fs' = fs(p \<mapsto> File c)"
  by (auto simp: WriteFile_def split: option.splits node.splits)

lemma WriteFile_Inl: "WriteFile fs p c = Inl e \<Longrightarrow> fs p = Some Dir"
  by (auto simp: WriteFile_def split: option.splits node.splits)

lemma MkdirAll_Inr: "MkdirAll fs p = Inr fs' \<longleftrightarrow> p \<noteq> [] \<and> (\<forall>c. fs p \<noteq> Some (File c)) \<and> fs' = fs(p \<mapsto> Dir)"
  by (auto simp: MkdirAll_def split: option.splits node.splits)

lemma splitIntoTokenChunks_Inr: "\<exists>chunks. splitIntoTokenChunks (Inr count) text m = Inr chunks"
  by (simp add: splitIntoTokenChunks_def split: prod.splits)

text \<open>What one task reads and writes: the chunk file and the result file of its chunk.\<close>

lemma processChunk_frame:
  assumes "p \<noteq> chunkFileName d i" and "p \<noteq> resultFileName d i"
  shows "files (snd (processChunk client model i d prompt chunk w)) p = files w p"
  using assms
  by (auto simp: processChunk_def Let_def WriteFile_Inr split: sum.splits)

lemma processChunk_local:
  assumes "files w (chunkFileName d i) = files v (chunkFileName d i)"
    and "files w (resultFileName d i) = files v (resultFileName d i)"
  shows "fst (processChunk client model i d prompt chunk w) = fst (processChunk client model i d prompt chunk v)
    \<and> files (snd (processChunk client model i d prompt chunk w)) (chunkFileName d i)
        = files (snd (processChunk client model i d prompt chunk v)) (chunkFileName d i)
    \<and> files (snd (processChunk client model i d prompt chunk w)) (resultFileName d i)
        = files (snd (processChunk client model i d prompt chunk v)) (resultFileName d i)"
proof -
  have r: "ReadFile (files w) (resultFileName d i) = ReadFile (files v) (resultFileName d i)"
    using assms(2) by (simp add: ReadFile_def)
  have c: "(\<exists>e. WriteFile (files w) (chunkFileName d i) chunk = Inl e \<and> WriteFile (files v) (chunkFileName d i) chunk = Inl e)
      \<or> (WriteFile (files w) (chunkFileName d i) chunk = Inr ((files w)(chunkFileName d i \<mapsto> File chunk))
          \<and> WriteFile (files v) (chunkFileName d i) chunk = Inr ((files v)(chunkFileName d i \<mapsto> File chunk)))"
    using assms(1) by (auto simp: WriteFile_def split: option.splits node.splits)
  have s: "\<And>x. (\<exists>e. WriteFile ((files w)(chunkFileName d i \<mapsto> File chunk)) (resultFileName d i) x = Inl e
            \<and> WriteFile ((files v)(chunkFileName d i \<mapsto> File chunk)) (resultFileName d i) x = Inl e)
      \<or> (WriteFile ((files w)(chunkFileName d i \<mapsto> File chunk)) (resultFileName d i) x
            = Inr ((files w)(chunkFileName d i \<mapsto> File chunk, resultFileName d i \<mapsto> File x))
          \<and> WriteFile ((files v)(chunkFileName d i \<mapsto> File chunk)) (resultFileName d i) x
            = Inr ((files v)(chunkFileName d i \<mapsto> File chunk, resultFileName d i \<mapsto> File x)))"
    using assms(2) by (auto simp: WriteFile_def split: option.splits node.splits)
  show ?thesis
  proof (cases "ReadFile (files v) (resultFileName d i)")
    case (Inr x)
    with r assms show ?thesis by (simp add: processChunk_def)
  next
    case (Inl e)
    from c show ?thesis
    proof
      assume "\<exists>e. WriteFile (files w) (chunkFileName d i) chunk = Inl e \<and> WriteFile (files v) (chunkFileName d i) chunk = Inl e"
      with r Inl assms show ?thesis by (auto simp: processChunk_def)
    next
      assume wr: "WriteFile (files w) (chunkFileName d i) chunk = Inr ((files w)(chunkFileName d i \<mapsto> File chunk))
          \<and> WriteFile (files v) (chunkFileName d i) chunk = Inr ((files v)(chunkFileName d i \<mapsto> File chunk))"
      show ?thesis
      proof (cases "client i \<lparr>reqModel = model, systemMessage = prompt, userMessage = chunk\<rparr>")
        case gl: (Inl ge)
        with r Inl wr assms show ?thesis by (simp add: processChunk_def)
      next
        case gr: (Inr choices)
        show ?thesis
        proof (cases "length choices > 0 \<and> hd choices \<noteq> []")
          case False
          with gr r Inl wr assms show ?thesis by (auto simp: processChunk_def)
        next
          case True
          from s [of "hd choices"] show ?thesis
          proof
            assume "\<exists>e. WriteFile ((files w)(chunkFileName d i \<mapsto> File chunk)) (resultFileName d i) (hd choices) = Inl e
            \<and> WriteFile ((files v)(chunkFileName d i \<mapsto> File chunk)) (resultFileName d i) (hd choices) = Inl e"
            with True gr r Inl wr assms show ?thesis by (auto simp: processChunk_def Let_def)
          next
            assume "WriteFile ((files w)(chunkFileName d i \<mapsto> File chunk)) (resultFileName d i) (hd choices)
            = Inr ((files w)(chunkFileName d i \<mapsto> File chunk, resultFileName d i \<mapsto> File (hd choices)))
          \<and> WriteFile ((files v)(chunkFileName d i \<mapsto> File chunk)) (resultFileName d i) (hd choices)
            = Inr ((files v)(chunkFileName d i \<mapsto> File chunk, resultFileName d i \<mapsto> File (hd choices)))"
            with True gr r Inl wr assms show ?thesis by (auto simp: processChunk_def Let_def)
          qed
        qed
      qed
    qed
  qed
qed

lemma processChunk_cache:
  assumes "processChunk client model i d prompt chunk w = (Inr r, w')"
    and "files w' (resultFileName d i) = Some (File c)"
  shows "c = r"
  using assms
  by (auto simp: processChunk_def Let_def ReadFile_Inr WriteFile_Inr split: sum.splits if_splits dest: WriteFile_Inl)

lemma processChunk_hit:
  assumes "files w (resultFileName d i) = Some (File c)"
  shows "processChunk client model i d prompt chunk w = (Inr c, w)"
  using assms by (simp add: processChunk_def ReadFile_def)

lemma processChunk_names:
  assumes "fst (processChunk client model i d prompt chunk w) = Inl e"
  shows "sublist (''chunk '' @ decimal (i + 1)) e"
proof -
  let ?n = "''chunk '' @ decimal (i + 1)"
  from assms consider
    err where "e = ''failed to write '' @ ?n @ '': '' @ err"
    | err where "e = ''failed to generate chat completion for '' @ ?n @ '': '' @ err"
    | "e = ''no content in response for '' @ ?n @ []"
    by (auto simp: processChunk_def Let_def split: sum.splits if_splits)
  then show ?thesis
    by cases (metis sublist_appendI)+
qed

text \<open>The parts of the state of the tasks after one more task.\<close>

lemma taskStep_world:
  "snd (snd (taskStep client model d prompt chunks st i))
    = snd (processChunk client model i d prompt (chunks ! i) (snd (snd st)))"
  by (auto simp: taskStep_def split: prod.splits sum.splits)

lemma taskStep_results:
  "fst (taskStep client model d prompt chunks st i)
    = (case fst (processChunk client model i d prompt (chunks ! i) (snd (snd st))) of
         Inl e \<Rightarrow> fst st
       | Inr r \<Rightarrow> (fst st)[i := r])"
  by (auto simp: taskStep_def split: prod.splits sum.splits)

lemma taskStep_error:
  "fst (snd (taskStep client model d prompt chunks st i))
    = (case fst (processChunk client model i d prompt (chunks ! i) (snd (snd st))) of
         Inl e \<Rightarrow> (case fst (snd st) of None \<Rightarrow> Some e | Some e0 \<Rightarrow> Some e0)
       | Inr r \<Rightarrow> fst (snd st))"
  by (auto simp: taskStep_def split: prod.splits sum.splits)

text \<open>A task is not changed by another task that ran before it.\<close>

lemma processChunk_after:
  assumes "k \<noteq> j"
  shows "fst (processChunk client model j d prompt chunk
            (snd (processChunk client model k d prompt chunk' w)))
        = fst (processChunk client model j d prompt chunk w)
    \<and> files (snd (processChunk client model j d prompt chunk
            (snd (processChunk client model k d prompt chunk' w)))) (chunkFileName d j)
        = files (snd (processChunk client model j d prompt chunk w)) (chunkFileName d j)
    \<and> files (snd (processChunk client model j d prompt chunk
            (snd (processChunk client model k d prompt chunk' w)))) (resultFileName d j)
        = files (snd (processChunk client model j d prompt chunk w)) (resultFileName d j)"
proof (rule processChunk_local)
  from assms have "chunkFileName d j \<noteq> chunkFileName d k" by (auto dest: chunkFileName_inj)
  then show "files (snd (processChunk client model k d prompt chunk' w)) (chunkFileName d j)
      = files w (chunkFileName d j)"
    by (intro processChunk_frame) simp_all
  from assms have "resultFileName d j \<noteq> resultFileName d k" by (auto dest: resultFileName_inj)
  then show "files (snd (processChunk client model k d prompt chunk' w)) (resultFileName d j)
      = files w (resultFileName d j)"
    by (intro processChunk_frame) simp_all
qed

lemma tasks_frame:
  assumes "\<forall>j \<in> set order. p \<noteq> chunkFileName d j \<and> p \<noteq> resultFileName d j"
  shows "files (snd (snd (foldl (taskStep client model d prompt chunks) st order))) p
    = files (snd (snd st)) p"
  using assms
proof (induction order arbitrary: st)
  case Nil
  show ?case by simp
next
  case (Cons k order)
  then show ?case by (simp add: taskStep_world processChunk_frame)
qed

lemma tasks_own:
  assumes "distinct order" and "j \<in> set order"
  shows "files (snd (snd (foldl (taskStep client model d prompt chunks) st order))) (chunkFileName d j)
      = files (snd (processChunk client model j d prompt (chunks ! j) (snd (snd st)))) (chunkFileName d j)
    \<and> files (snd (snd (foldl (taskStep client model d prompt chunks) st order))) (resultFileName d j)
      = files (snd (processChunk client model j d prompt (chunks ! j) (snd (snd st)))) (resultFileName d j)"
  using assms
proof (induction order arbitrary: st)
  case Nil
  then show ?case by simp
next
  case (Cons k order)
  show ?case
  proof (cases "j = k")
    case True
    with Cons.prems have "\<forall>i \<in> set order. i \<noteq> j" by auto
    then have "\<forall>i \<in> set order. chunkFileName d j \<noteq> chunkFileName d i \<and> chunkFileName d j \<noteq> resultFileName d i"
      "\<forall>i \<in> set order. resultFileName d j \<noteq> chunkFileName d i \<and> resultFileName d j \<noteq> resultFileName d i"
      by (auto dest: chunkFileName_inj resultFileName_inj)
    then show ?thesis using True by (simp add: tasks_frame taskStep_world)
  next
    case False
    with Cons.prems have "distinct order" "j \<in> set order" by auto
    from Cons.IH [OF this] processChunk_after [of k j] False show ?thesis
      by (simp add: taskStep_world)
  qed
qed

lemma tasks_length:
  "length (fst (foldl (taskStep client model d prompt chunks) st order)) = length (fst st)"
  by (induction order arbitrary: st) (auto simp: taskStep_results split: sum.splits)

lemma tasks_keep:
  assumes "j \<notin> set order"
  shows "fst (foldl (taskStep client model d prompt chunks) st order) ! j = fst st ! j"
  using assms
  by (induction order arbitrary: st) (auto simp: taskStep_results split: sum.splits)

lemma tasks_result:
  assumes "distinct order" and "j \<in> set order" and "j < length (fst st)"
    and "fst (processChunk client model j d prompt (chunks ! j) (snd (snd st))) = Inr r"
  shows "fst (foldl (taskStep client model d prompt chunks) st order) ! j = r"
  using assms
proof (induction order arbitrary: st)
  case Nil
  then show ?case by simp
next
  case (Cons k order)
  show ?case
  proof (cases "j = k")
    case True
    with Cons.prems have "j \<notin> set order" by auto
    with True Cons.prems(3,4) show ?thesis
      by (simp add: tasks_keep taskStep_results)
  next
    case False
    with Cons.prems have "distinct order" "j \<in> set order" by auto
    moreover have "j < length (fst (taskStep client model d prompt chunks st k))"
      using Cons.prems(3) by (simp add: taskStep_results split: sum.splits)
    moreover have "fst (processChunk client model j d prompt (chunks ! j)
        (snd (snd (taskStep client model d prompt chunks st k)))) = Inr r"
      using processChunk_after [of k j] False Cons.prems(4) by (simp add: taskStep_world)
    ultimately show ?thesis using Cons.IH by simp
  qed
qed

lemma tasks_error_kept:
  assumes "fst (snd st) = Some e"
  shows "fst (snd (foldl (taskStep client model d prompt chunks) st order)) = Some e"
  using assms
  by (induction order arbitrary: st) (auto simp: taskStep_error split: sum.splits)

lemma tasks_error_raised:
  assumes "distinct order" and "j \<in> set order"
    and "fst (processChunk client model j d prompt (chunks ! j) (snd (snd st))) = Inl e"
  shows "fst (snd (foldl (taskStep client model d prompt chunks) st order)) \<noteq> None"
  using assms
proof (induction order arbitrary: st)
  case Nil
  then show ?case by simp
next
  case (Cons k order)
  show ?case
  proof (cases "j = k")
    case True
    with Cons.prems(3) obtain e' where "fst (snd (taskStep client model d prompt chunks st k)) = Some e'"
      by (cases "fst (snd st)") (auto simp: taskStep_error)
    then show ?thesis by (simp add: tasks_error_kept)
  next
    case False
    with Cons.prems have "distinct order" "j \<in> set order" by auto
    moreover have "fst (processChunk client model j d prompt (chunks ! j)
        (snd (snd (taskStep client model d prompt chunks st k)))) = Inl e"
      using processChunk_after [of k j] False Cons.prems(3) by (simp add: taskStep_world)
    ultimately show ?thesis using Cons.IH by simp
  qed
qed

lemma tasks_error_source:
  assumes "distinct order" and "fst (snd st) = None"
    and "fst (snd (foldl (taskStep client model d prompt chunks) st order)) = Some e"
  shows "\<exists>j \<in> set order. fst (processChunk client model j d prompt (chunks ! j) (snd (snd st))) = Inl e"
  using assms
proof (induction order arbitrary: st)
  case Nil
  then show ?case by simp
next
  case (Cons k order)
  let ?st1 = "taskStep client model d prompt chunks st k"
  show ?case
  proof (cases "fst (processChunk client model k d prompt (chunks ! k) (snd (snd st)))")
    case (Inl e')
    with Cons.prems(2) have "fst (snd ?st1) = Some e'" by (simp add: taskStep_error)
    then have "fst (snd (foldl (taskStep client model d prompt chunks) ?st1 order)) = Some e'"
      by (rule tasks_error_kept)
    with Cons.prems(3) have "e' = e" by simp
    with Inl show ?thesis by simp
  next
    case (Inr r)
    with Cons.prems(2) have none: "fst (snd ?st1) = None" by (simp add: taskStep_error)
    from Cons.prems(1) have d: "distinct order" by simp
    from Cons.prems(3) have "fst (snd (foldl (taskStep client model d prompt chunks) ?st1 order)) = Some e"
      by simp
    from Cons.IH [OF d none this] obtain j where j: "j \<in> set order"
      "fst (processChunk client model j d prompt (chunks ! j) (snd (snd ?st1))) = Inl e" by blast
    from j(1) Cons.prems(1) have "k \<noteq> j" by auto
    with j(2) processChunk_after [of k j] have "fst (processChunk client model j d prompt (chunks ! j) (snd (snd st))) = Inl e"
      by (simp add: taskStep_world)
    with j(1) show ?thesis by auto
  qed
qed

lemma tasks_hits:
  assumes "\<forall>j \<in> set order. \<exists>c. files (snd (snd st)) (resultFileName d j) = Some (File c)"
  shows "snd (snd (foldl (taskStep client model d prompt chunks) st order)) = snd (snd st)
    \<and> fst (snd (foldl (taskStep client model d prompt chunks) st order)) = fst (snd st)"
  using assms
proof (induction order arbitrary: st)
  case Nil
  show ?case by simp
next
  case (Cons k order)
  from Cons.prems obtain c where "files (snd (snd st)) (resultFileName d k) = Some (File c)" by auto
  then have pc: "processChunk client model k d prompt (chunks ! k) (snd (snd st)) = (Inr c, snd (snd st))"
    by (rule processChunk_hit)
  then have "snd (snd (taskStep client model d prompt chunks st k)) = snd (snd st)"
    "fst (snd (taskStep client model d prompt chunks st k)) = fst (snd st)"
    by (simp_all add: taskStep_world taskStep_error)
  with Cons show ?case by simp
qed

lemma taskOrder_set [simp]: "set (taskOrder finish n) = {0..<n}"
  by (simp add: taskOrder_def)

lemma taskOrder_distinct [simp]: "distinct (taskOrder finish n)"
  by (simp add: taskOrder_def)

text \<open>The user lets the run go on: no confirmation is required, or the answer is yes.\<close>

definition proceeds :: "bool \<Rightarrow> string \<Rightarrow> bool" where
  "proceeds requireConfirmation response =
    (\<not> requireConfirmation \<or> ToLower (TrimSpace response) = ''yes'' \<or> ToLower (TrimSpace response) = ''y'')"

text \<open>A run that goes on after the question, up to the tasks.\<close>

lemma ProcessWithClient_tasks:
  assumes "ReadFile (files w) filePath = Inr text"
    and "splitIntoTokenChunks enc text 2000 = Inr chunks"
    and "proceeds requireConfirmation response"
    and "MkdirAll (files w) (TrimSuffix filePath (Ext filePath)) = Inr files1"
  shows "ProcessWithClient enc client finish response model prompt filePath requireConfirmation w =
    (case runTasks client model (TrimSuffix filePath (Ext filePath))
            (prompt @ [NL] @ ''Return the lines that you want to keep.'') chunks finish (w\<lparr>files := files1\<rparr>) of
       (results, Some err, w2) \<Rightarrow> (Some (''failed to wait for all subtasks to complete: '' @ err), w2)
     | (results, None, w2) \<Rightarrow>
         (case WriteFile (files w2) (combinedFileName filePath) (concat results) of
            Inl err \<Rightarrow> (Some (''failed to write combined results: '' @ err), w2)
          | Inr files3 \<Rightarrow> (None, w2\<lparr>files := files3\<rparr>)))"
proof -
  from assms(2) obtain count where "enc = Inr count"
    by (cases enc) (auto simp: splitIntoTokenChunks_def)
  then have "estimateTokens enc text = Inr \<lparr>TokensCount = count text\<rparr>"
    by (simp add: estimateTokens_def)
  with assms show ?thesis
    unfolding ProcessWithClient_def proceeds_def Let_def by auto
qed

lemma ProcessWithClient_success:
  assumes "ProcessWithClient enc client finish response model prompt filePath requireConfirmation w = (None, w1)"
    and "proceeds requireConfirmation response"
    and "ReadFile (files w) filePath = Inr text"
    and "splitIntoTokenChunks enc text 2000 = Inr chunks"
  shows "\<exists>files1 results w2.
      MkdirAll (files w) (TrimSuffix filePath (Ext filePath)) = Inr files1
    \<and> runTasks client model (TrimSuffix filePath (Ext filePath))
         (prompt @ [NL] @ ''Return the lines that you want to keep.'') chunks finish (w\<lparr>files := files1\<rparr>)
        = (results, None, w2)
    \<and> files w2 (combinedFileName filePath) \<noteq> Some Dir
    \<and> w1 = w2\<lparr>files := (files w2)(combinedFileName filePath \<mapsto> File (concat results))\<rparr>"
proof (cases "MkdirAll (files w) (TrimSuffix filePath (Ext filePath))")
  case (Inl e)
  from assms(4) obtain count where "enc = Inr count"
    by (cases enc) (auto simp: splitIntoTokenChunks_def)
  then have "estimateTokens enc text = Inr \<lparr>TokensCount = count text\<rparr>"
    by (simp add: estimateTokens_def)
  with assms Inl show ?thesis
    unfolding ProcessWithClient_def proceeds_def Let_def by auto
next
  case (Inr files1)
  obtain results fe w2 where rt: "runTasks client model (TrimSuffix filePath (Ext filePath))
         (prompt @ [NL] @ ''Return the lines that you want to keep.'') chunks finish (w\<lparr>files := files1\<rparr>)
        = (results, fe, w2)"
    by (metis prod_cases3)
  from ProcessWithClient_tasks [OF assms(3,4,2) Inr, of client finish model prompt] assms(1) rt
  have fe: "fe = None" and wr: "(case WriteFile (files w2) (combinedFileName filePath) (concat results) of
            Inl err \<Rightarrow> (Some (''failed to write combined results: '' @ err), w2)
          | Inr files3 \<Rightarrow> (None, w2\<lparr>files := files3\<rparr>)) = (None, w1)"
    by (cases fe; simp)+
  from wr obtain files3 where "WriteFile (files w2) (combinedFileName filePath) (concat results) = Inr files3"
    "w1 = w2\<lparr>files := files3\<rparr>"
    by (cases "WriteFile (files w2) (combinedFileName filePath) (concat results)") auto
  with Inr rt fe show ?thesis by (auto simp: WriteFile_Inr)
qed

section \<open>Concrete worlds, clients and runs\<close>

text \<open>
  A document \<open>d/doc.txt\<close> with its chunk directory \<open>d/doc\<close>; the same with the first result
  already in the cache, empty; and the same with a directory in the place of the first
  result file, which can be neither read nor written as a file.
\<close>

definition docWorld :: world where
  "docWorld = \<lparr>files = [''d/doc.txt'' \<mapsto> File ''hello world'', ''d/doc'' \<mapsto> Dir], calls = []\<rparr>"

definition cachedWorld :: world where
  "cachedWorld =
    \<lparr>files = [''d/doc.txt'' \<mapsto> File ''hello world'', ''d/doc'' \<mapsto> Dir, ''d/doc/result1.txt'' \<mapsto> File []],
     calls = []\<rparr>"

definition blockedWorld :: world where
  "blockedWorld =
    \<lparr>files = [''d/doc.txt'' \<mapsto> File ''hello world'', ''d/doc'' \<mapsto> Dir, ''d/doc/result1.txt'' \<mapsto> Dir],
     calls = []\<rparr>"

text \<open>Clients: one that answers with no choice, one that answers \<open>kept\<close>, one that fails.\<close>

definition emptyClient :: generator where
  "emptyClient i req = Inr []"

definition keptClient :: generator where
  "keptClient i req = Inr [''kept'']"

definition failingClient :: generator where
  "failingClient i req = Inl ''mock error: simulated API failure''"

lemma demo_names:
  "resultFileName ''d/doc'' 0 = ''d/doc/result1.txt''"
  "chunkFileName ''d/doc'' 0 = ''d/doc/chunk1.txt''"
  "resultFileName ''d/doc'' 1 = ''d/doc/result2.txt''"
  "chunkFileName ''d/doc'' 1 = ''d/doc/chunk2.txt''"
  by (simp_all add: resultFileName_def chunkFileName_def filepathJoin_def decimal.simps digitChar_def)

text \<open>
  A document of two lines, a tokenizer that counts 1500 tokens for every string (so that the
  budget of 2000 holds one line and not two), and a client that fails for the second chunk
  only.
\<close>

definition twoLineWorld :: world where
  "twoLineWorld = \<lparr>files = [''d/doc.txt'' \<mapsto> File [CHR ''a'', NL, CHR ''b'']], calls = []\<rparr>"

definition heavy :: codec where
  "heavy s = 1500"

definition secondFails :: generator where
  "secondFails i req = (if i = 1 then Inl ''mock error: simulated API failure'' else Inr [''kept''])"

text \<open>
  Runs without confirmation on the small document: a first run with the client that answers
  \<open>kept\<close>, from the world where the result file can be written and from the world where a
  directory is in its place, and a second run after the latter.
\<close>

definition firstRun :: "error option \<times> world" where
  "firstRun =
    ProcessWithClient (Inr length) keptClient (\<lambda>i. i) [] ''gpt-5-nano'' ''keep'' ''d/doc.txt'' False docWorld"

definition firstRunBlocked :: "error option \<times> world" where
  "firstRunBlocked =
    ProcessWithClient (Inr length) keptClient (\<lambda>i. i) [] ''gpt-5-nano'' ''keep'' ''d/doc.txt'' False blockedWorld"

definition secondRunBlocked :: "error option \<times> world" where
  "secondRunBlocked =
    ProcessWithClient (Inr length) keptClient (\<lambda>i. i) [] ''gpt-5-nano'' ''keep'' ''d/doc.txt'' False
      (snd firstRunBlocked)"

lemma demo_dir: "TrimSuffix ''d/doc.txt'' (Ext ''d/doc.txt'') = ''d/doc''"
  by code_simp

lemma demo_split: "splitIntoTokenChunks (Inr length) ''hello world'' 2000 = Inr [''hello world'']"
  by code_simp

lemma demo_split_two: "splitIntoTokenChunks (Inr heavy) [CHR ''a'', NL, CHR ''b''] 2000 = Inr [''a'', ''b'']"
  by code_simp


section \<open>The chunker's properties\<close>

text \<open>
  C1, content preservation. For every tokenizer, input text and budget, splitIntoTokenChunks
  returns chunks, and the chunks joined in order with the line separator have exactly the
  words of the input text, in the same order: none is dropped and none is duplicated.
\<close>

theorem C1_content_preservation:
  "\<exists>chunks. splitIntoTokenChunks (Inr count) text maxTokensPerChunk = Inr chunks
     \<and> Fields (Join chunks [NL]) = Fields text"
proof -
  define r where "r = foldl (lineStep count maxTokensPerChunk) ([], [], 0) (Split text NL)"
  obtain chunks currentChunk currentTokens where r: "r = (chunks, currentChunk, currentTokens)"
    by (cases r) auto
  have "spaced (fst (snd ([] :: string list, [] :: string, 0 :: nat)))" by (simp add: spaced_def)
  from lineLoop_words [OF this, of count maxTokensPerChunk "Split text NL"]
  have "stateWords r = Fields text"
    by (simp add: r_def stateWords_def Fields_Split)
  then have w: "concat (map Fields chunks) @ Fields currentChunk = Fields text"
    by (simp add: stateWords_def r)
  define res where "res = (if currentChunk \<noteq> [] then chunks @ [TrimSuffix currentChunk [NL]] else chunks)"
  have "splitIntoTokenChunks (Inr count) text maxTokensPerChunk = Inr res"
    using r unfolding r_def by (simp add: splitIntoTokenChunks_def res_def)
  moreover have "concat (map Fields res) = Fields text"
    using w by (auto simp: res_def Fields_TrimSuffix)
  ultimately show ?thesis by (simp add: Fields_Join)
qed

text \<open>
  C9, empty input. For the empty text, every tokenizer and every budget, splitIntoTokenChunks
  returns exactly one chunk, the empty string.
\<close>

theorem C9_empty_input_one_empty_chunk:
  "splitIntoTokenChunks (Inr count) [] maxTokensPerChunk = Inr [[]]"
  by (simp add: splitIntoTokenChunks_def lineStep_def Let_def TrimSuffix_def)

text \<open>
  C2, budget respect, as the claim states it: every chunk has at most \<open>maxTokensPerChunk\<close>
  tokens, the pieces of an oversized line included. It fails in two ways. A word cannot be
  split: for the text \<open>abc\<close> and the budget 2, with one token for every byte, the one chunk
  is the word and has 3 tokens. And the chunker compares the budget with the sum of the
  counts of the lines, each with its line feed, not with the count of the chunk: with the
  tokenizer \<open>mergeCount\<close> and the budget 4, the lines \<open>x;\r\<close> and \<open>y;\r\<close> count 2 tokens
  each with their line feed, they are put into one chunk, and that chunk, without its last
  line feed, has 5 tokens and two words.
\<close>

theorem C2_budget_counterexample:
  "(0 :: int) < 2
    \<and> splitIntoTokenChunks (Inr length) ''abc'' 2 = Inr [''abc'']
    \<and> \<not> int (length ''abc'') \<le> 2
    \<and> (0 :: int) < 4
    \<and> splitIntoTokenChunks (Inr mergeCount) [CHR ''x'', CHR '';'', CHR 0x0D, NL, CHR ''y'', CHR '';'', CHR 0x0D, NL, CHR ''z''] 4
        = Inr [[CHR ''x'', CHR '';'', CHR 0x0D, NL, CHR ''y'', CHR '';'', CHR 0x0D], ''z'']
    \<and> \<not> int (mergeCount [CHR ''x'', CHR '';'', CHR 0x0D, NL, CHR ''y'', CHR '';'', CHR 0x0D]) \<le> 4"
  by code_simp

text \<open>
  C2 as amended. For every tokenizer, text and budget, every chunk that splitIntoTokenChunks
  returns keeps the budget in the totals that the chunker adds up: the sum, over the lines
  of the chunk, of the count of the line with its line feed is at most
  \<open>maxTokensPerChunk\<close>; or the chunk is a single line, cut from an oversized line, and the
  sum, over its words, of the count of the word with a space after it is at most
  \<open>maxTokensPerChunk\<close>; or the chunk is a single line with at most one word (a word, or a
  line of white space only, that exceeds the budget alone). Nothing bounds the count of the
  chunk itself.
\<close>

theorem C2_budget_amended:
  assumes "splitIntoTokenChunks (Inr count) text maxTokensPerChunk = Inr chunks"
    and "c \<in> set chunks"
  shows "int (lineTotal count c) \<le> maxTokensPerChunk
    \<or> NL \<notin> set c \<and> (int (wordTotal count c) \<le> maxTokensPerChunk \<or> length (Fields c) \<le> 1)"
proof -
  define r where "r = foldl (lineStep count maxTokensPerChunk) ([], [], 0) (Split text NL)"
  obtain chunks' currentChunk currentTokens where r: "r = (chunks', currentChunk, currentTokens)"
    by (cases r) auto
  have "lineInv count maxTokensPerChunk ([], [], 0)" by (simp add: lineInv_def)
  moreover have "\<forall>l \<in> set (Split text NL). NL \<notin> set l" using Split_no_sep by blast
  ultimately have "lineInv count maxTokensPerChunk r" unfolding r_def by (rule lineLoop_inv)
  then have i: "\<forall>c \<in> set chunks'. budgeted count maxTokensPerChunk c"
    "currentChunk \<noteq> [] \<Longrightarrow> budgeted count maxTokensPerChunk (TrimSuffix currentChunk [NL])"
    by (auto simp: lineInv_def r)
  have "chunks = (if currentChunk \<noteq> [] then chunks' @ [TrimSuffix currentChunk [NL]] else chunks')"
    using assms(1) r unfolding r_def by (simp add: splitIntoTokenChunks_def)
  with i assms(2) have "budgeted count maxTokensPerChunk c" by (auto split: if_splits)
  then show ?thesis by (simp add: budgeted_def)
qed

theorem C2_budget_amended_witness:
  "splitIntoTokenChunks (Inr mergeCount) [CHR ''x'', CHR '';'', CHR 0x0D, NL, CHR ''y'', CHR '';'', CHR 0x0D, NL, CHR ''z''] 4
      = Inr [[CHR ''x'', CHR '';'', CHR 0x0D, NL, CHR ''y'', CHR '';'', CHR 0x0D], ''z'']
    \<and> [CHR ''x'', CHR '';'', CHR 0x0D, NL, CHR ''y'', CHR '';'', CHR 0x0D] \<in> set [[CHR ''x'', CHR '';'', CHR 0x0D, NL, CHR ''y'', CHR '';'', CHR 0x0D], ''z'']
    \<and> int (lineTotal mergeCount [CHR ''x'', CHR '';'', CHR 0x0D, NL, CHR ''y'', CHR '';'', CHR 0x0D]) \<le> 4"
proof -
  have h1: "splitIntoTokenChunks (Inr mergeCount) [CHR ''x'', CHR '';'', CHR 0x0D, NL, CHR ''y'', CHR '';'', CHR 0x0D, NL, CHR ''z''] 4
      = Inr [[CHR ''x'', CHR '';'', CHR 0x0D, NL, CHR ''y'', CHR '';'', CHR 0x0D], ''z'']"
    by code_simp
  have h2: "[CHR ''x'', CHR '';'', CHR 0x0D, NL, CHR ''y'', CHR '';'', CHR 0x0D] \<in> set [[CHR ''x'', CHR '';'', CHR 0x0D, NL, CHR ''y'', CHR '';'', CHR 0x0D], ''z'']"
    by simp
  have "NL \<in> set [CHR ''x'', CHR '';'', CHR 0x0D, NL, CHR ''y'', CHR '';'', CHR 0x0D]" by simp
  with C2_budget_amended [OF h1 h2] have "int (lineTotal mergeCount [CHR ''x'', CHR '';'', CHR 0x0D, NL, CHR ''y'', CHR '';'', CHR 0x0D]) \<le> 4"
    by blast
  with h1 h2 show ?thesis by blast
qed

text \<open>
  C5, the single-chunk scenario, as the claim states it: for the text \<open>a\nb\nc\n\<close> and a
  budget that holds all lines, the one chunk is the text without its last line feed. It fails
  with one token per byte and the budget 100: the one chunk is the whole text, its last line
  feed kept.
\<close>

theorem C5_single_chunk_counterexample:
  "splitIntoTokenChunks (Inr length) [CHR ''a'', NL, CHR ''b'', NL, CHR ''c'', NL] 100
      = Inr [[CHR ''a'', NL, CHR ''b'', NL, CHR ''c'', NL]]
    \<and> splitIntoTokenChunks (Inr length) [CHR ''a'', NL, CHR ''b'', NL, CHR ''c'', NL] 100
      \<noteq> Inr [[CHR ''a'', NL, CHR ''b'', NL, CHR ''c'']]"
proof -
  have "splitIntoTokenChunks (Inr length) [CHR ''a'', NL, CHR ''b'', NL, CHR ''c'', NL] 100
      = Inr [[CHR ''a'', NL, CHR ''b'', NL, CHR ''c'', NL]]" by code_simp
  then show ?thesis by simp
qed

text \<open>
  C5 as amended. For the text \<open>a\nb\nc\n\<close>, every tokenizer and every budget that holds the
  four lines that the text splits into (the last one empty), each with its line feed,
  splitIntoTokenChunks returns exactly one chunk, and that chunk is the text itself.
\<close>

theorem C5_single_chunk_amended:
  assumes "int (count [CHR ''a'', NL] + count [CHR ''b'', NL] + count [CHR ''c'', NL] + count [NL])
      \<le> maxTokensPerChunk"
  shows "splitIntoTokenChunks (Inr count) [CHR ''a'', NL, CHR ''b'', NL, CHR ''c'', NL] maxTokensPerChunk
      = Inr [[CHR ''a'', NL, CHR ''b'', NL, CHR ''c'', NL]]"
  using assms
  by (simp add: splitIntoTokenChunks_def lineStep_def wordStep_def Let_def TrimSuffix_def suffix_to_prefix)

theorem C5_single_chunk_amended_witness:
  "int (length [CHR ''a'', NL] + length [CHR ''b'', NL] + length [CHR ''c'', NL] + length [NL]) \<le> 100
    \<and> splitIntoTokenChunks (Inr length) [CHR ''a'', NL, CHR ''b'', NL, CHR ''c'', NL] 100
      = Inr [[CHR ''a'', NL, CHR ''b'', NL, CHR ''c'', NL]]"
proof -
  have h: "int (length [CHR ''a'', NL] + length [CHR ''b'', NL] + length [CHR ''c'', NL] + length [NL]) \<le> 100"
    by simp
  from C5_single_chunk_amended [of length 100, OF h] h show ?thesis by blast
qed

section \<open>The properties of processChunk\<close>

text \<open>
  C6, an empty answer is an error. For a chunk that is not in the cache (its result file
  cannot be read) and whose chunk file was written, if the generation call returns a
  completion with no choice or with an empty content in its first choice, processChunk
  returns the error \<open>no content in response for chunk N\<close> with the number \<open>N = i + 1\<close> of
  the chunk, not an empty result, and its result file is as it was: nothing is written to it.
\<close>

theorem C6_empty_response_is_error:
  assumes "ReadFile (files w) (resultFileName chunkDir i) = Inl e0"
    and "WriteFile (files w) (chunkFileName chunkDir i) chunk = Inr files1"
    and "client i \<lparr>reqModel = model, systemMessage = prompt, userMessage = chunk\<rparr> = Inr choices"
    and "choices = [] \<or> hd choices = []"
  shows "processChunk client model i chunkDir prompt chunk w =
      (Inl (''no content in response for chunk '' @ decimal (i + 1)),
       w\<lparr>files := files1, calls := calls w @ [i]\<rparr>)
    \<and> files1 (resultFileName chunkDir i) = files w (resultFileName chunkDir i)"
proof -
  have "files1 = (files w)(chunkFileName chunkDir i \<mapsto> File chunk)"
    using assms(2) by (simp add: WriteFile_Inr)
  then have "files1 (resultFileName chunkDir i) = files w (resultFileName chunkDir i)"
    by simp
  moreover have "processChunk client model i chunkDir prompt chunk w =
      (Inl (''no content in response for chunk '' @ decimal (i + 1)),
       w\<lparr>files := files1, calls := calls w @ [i]\<rparr>)"
    using assms by (auto simp: processChunk_def Let_def)
  ultimately show ?thesis by simp
qed

theorem C6_empty_response_is_error_witness:
  "ReadFile (files docWorld) (resultFileName ''d/doc'' 0)
      = Inl ''open d/doc/result1.txt: no such file or directory''
    \<and> WriteFile (files docWorld) (chunkFileName ''d/doc'' 0) ''hello world''
      = Inr ((files docWorld)(''d/doc/chunk1.txt'' \<mapsto> File ''hello world''))
    \<and> emptyClient 0 \<lparr>reqModel = ''gpt-5-nano'', systemMessage = ''keep'', userMessage = ''hello world''\<rparr> = Inr []
    \<and> processChunk emptyClient ''gpt-5-nano'' 0 ''d/doc'' ''keep'' ''hello world'' docWorld =
      (Inl (''no content in response for chunk '' @ decimal (0 + 1)),
       docWorld\<lparr>files := (files docWorld)(''d/doc/chunk1.txt'' \<mapsto> File ''hello world''),
                calls := calls docWorld @ [0]\<rparr>)"
proof -
  have h1: "ReadFile (files docWorld) (resultFileName ''d/doc'' 0)
      = Inl ''open d/doc/result1.txt: no such file or directory''"
    by (simp add: demo_names docWorld_def ReadFile_def)
  have h2: "WriteFile (files docWorld) (chunkFileName ''d/doc'' 0) ''hello world''
      = Inr ((files docWorld)(''d/doc/chunk1.txt'' \<mapsto> File ''hello world''))"
    by (simp add: demo_names docWorld_def WriteFile_def)
  have h3: "emptyClient 0 \<lparr>reqModel = ''gpt-5-nano'', systemMessage = ''keep'', userMessage = ''hello world''\<rparr> = Inr []"
    by (simp add: emptyClient_def)
  have h4: "([] :: string list) = [] \<or> hd ([] :: string list) = []" by simp
  from C6_empty_response_is_error [where client = emptyClient and w = docWorld and i = 0, OF h1 h2 h3 h4] h1 h2 h3
  show ?thesis by blast
qed

text \<open>
  C8, a failed cache write is not fatal. For a chunk that is not in the cache and whose chunk
  file was written, if the generation call returns a content that is not empty and writing
  it to the result file fails, processChunk still returns that content and no error; the
  files are as the write of the chunk file left them.
\<close>

theorem C8_cache_write_failure_not_fatal:
  assumes "ReadFile (files w) (resultFileName chunkDir i) = Inl e0"
    and "WriteFile (files w) (chunkFileName chunkDir i) chunk = Inr files1"
    and "client i \<lparr>reqModel = model, systemMessage = prompt, userMessage = chunk\<rparr> = Inr choices"
    and "choices \<noteq> []" and "hd choices \<noteq> []"
    and "WriteFile files1 (resultFileName chunkDir i) (hd choices) = Inl e1"
  shows "processChunk client model i chunkDir prompt chunk w =
      (Inr (hd choices), w\<lparr>files := files1, calls := calls w @ [i]\<rparr>)"
  using assms by (simp add: processChunk_def Let_def)

theorem C8_cache_write_failure_not_fatal_witness:
  "ReadFile (files blockedWorld) (resultFileName ''d/doc'' 0) = Inl ''read d/doc/result1.txt: is a directory''
    \<and> WriteFile (files blockedWorld) (chunkFileName ''d/doc'' 0) ''hello world''
      = Inr ((files blockedWorld)(''d/doc/chunk1.txt'' \<mapsto> File ''hello world''))
    \<and> keptClient 0 \<lparr>reqModel = ''gpt-5-nano'', systemMessage = ''keep'', userMessage = ''hello world''\<rparr>
      = Inr [''kept'']
    \<and> WriteFile ((files blockedWorld)(''d/doc/chunk1.txt'' \<mapsto> File ''hello world''))
        (resultFileName ''d/doc'' 0) (hd [''kept''])
      = Inl ''open d/doc/result1.txt: is a directory''
    \<and> processChunk keptClient ''gpt-5-nano'' 0 ''d/doc'' ''keep'' ''hello world'' blockedWorld =
      (Inr (hd [''kept'']),
       blockedWorld\<lparr>files := (files blockedWorld)(''d/doc/chunk1.txt'' \<mapsto> File ''hello world''),
                    calls := calls blockedWorld @ [0]\<rparr>)"
proof -
  have h1: "ReadFile (files blockedWorld) (resultFileName ''d/doc'' 0) = Inl ''read d/doc/result1.txt: is a directory''"
    by (simp add: demo_names blockedWorld_def ReadFile_def)
  have h2: "WriteFile (files blockedWorld) (chunkFileName ''d/doc'' 0) ''hello world''
      = Inr ((files blockedWorld)(''d/doc/chunk1.txt'' \<mapsto> File ''hello world''))"
    by (simp add: demo_names blockedWorld_def WriteFile_def)
  have h3: "keptClient 0 \<lparr>reqModel = ''gpt-5-nano'', systemMessage = ''keep'', userMessage = ''hello world''\<rparr>
      = Inr [''kept'']"
    by (simp add: keptClient_def)
  have h4: "[''kept''] \<noteq> []" and h5: "hd [''kept''] \<noteq> []" by simp_all
  have h6: "WriteFile ((files blockedWorld)(''d/doc/chunk1.txt'' \<mapsto> File ''hello world''))
        (resultFileName ''d/doc'' 0) (hd [''kept''])
      = Inl ''open d/doc/result1.txt: is a directory''"
    by (simp add: demo_names blockedWorld_def WriteFile_def)
  from C8_cache_write_failure_not_fatal [where client = keptClient and w = blockedWorld and i = 0, OF h1 h2 h3 h4 h5 h6]
    h1 h2 h3 h6
  show ?thesis by blast
qed

text \<open>
  C10, an empty result in the cache is used as it is. If the result file of a chunk is there
  and is empty, processChunk returns the empty string and no error, and the world is
  unchanged: no file is written and no generation call is made.
\<close>

theorem C10_cached_empty_result:
  assumes "ReadFile (files w) (resultFileName chunkDir i) = Inr []"
  shows "processChunk client model i chunkDir prompt chunk w = (Inr [], w)"
  using assms by (simp add: processChunk_def)

theorem C10_cached_empty_result_witness:
  "ReadFile (files cachedWorld) (resultFileName ''d/doc'' 0) = Inr []
    \<and> processChunk failingClient ''gpt-5-nano'' 0 ''d/doc'' ''keep'' ''hello world'' cachedWorld
      = (Inr [], cachedWorld)"
proof -
  have h: "ReadFile (files cachedWorld) (resultFileName ''d/doc'' 0) = Inr []"
    by (simp add: demo_names cachedWorld_def ReadFile_def)
  from C10_cached_empty_result [OF h] h show ?thesis by blast
qed

section \<open>The properties of ProcessWithClient\<close>

text \<open>
  C7, clean cancellation. When the confirmation is required and the answer, trimmed and in
  lower case, is neither \<open>yes\<close> nor \<open>y\<close>, a run that has come to the question (the
  document was read and the tokenizer is there) returns no error and leaves the world as it
  was: no directory, chunk file, result file or combined output is written, and no
  generation call is made.
\<close>

theorem C7_clean_cancellation:
  assumes "requireConfirmation"
    and "ToLower (TrimSpace response) \<noteq> ''yes''" and "ToLower (TrimSpace response) \<noteq> ''y''"
    and "ReadFile (files w) filePath = Inr text"
    and "enc = Inr count"
  shows "ProcessWithClient enc client finish response model prompt filePath requireConfirmation w = (None, w)"
proof -
  obtain chunks where "splitIntoTokenChunks (Inr count) text 2000 = Inr chunks"
    using splitIntoTokenChunks_Inr by blast
  with assms show ?thesis
    by (simp add: ProcessWithClient_def estimateTokens_def)
qed

theorem C7_clean_cancellation_witness:
  "ToLower (TrimSpace ''No'') \<noteq> ''yes'' \<and> ToLower (TrimSpace ''No'') \<noteq> ''y''
    \<and> ReadFile (files docWorld) ''d/doc.txt'' = Inr ''hello world''
    \<and> ProcessWithClient (Inr length) keptClient (\<lambda>i. i) ''No'' ''gpt-5-nano'' ''keep'' ''d/doc.txt'' True docWorld
      = (None, docWorld)"
proof -
  have h1: "True" by simp
  have h2: "ToLower (TrimSpace ''No'') \<noteq> ''yes''" by code_simp
  have h3: "ToLower (TrimSpace ''No'') \<noteq> ''y''" by code_simp
  have h4: "ReadFile (files docWorld) ''d/doc.txt'' = Inr ''hello world''"
    by (simp add: docWorld_def ReadFile_def)
  have h5: "(Inr length :: error + codec) = Inr length" by simp
  from C7_clean_cancellation [OF h1 h2 h3 h4 h5] h2 h3 h4 show ?thesis by blast
qed

text \<open>
  C4, fail fast with no partial output. Take a run that comes to the tasks (the document is
  read, the chunks are made, the user lets it go on, the chunk directory is made), and a
  chunk \<open>i\<close> that is not in the cache, whose chunk file can be written and whose generation
  call fails. Then the run returns an error. The error is \<open>failed to wait for all subtasks
  to complete:\<close> followed by the error of a task \<open>j\<close> that failed, and it names the chunk
  of that task by its number \<open>j + 1\<close> (when no other task fails, \<open>j\<close> is \<open>i\<close>). The
  combined output is as it was before the run. The result file of every chunk \<open>k\<close> is as
  the task of that chunk left it: what a task has written to the cache stays, and what was
  in the cache before stays.
\<close>

theorem C4_fail_fast:
  assumes doc: "ReadFile (files w) filePath = Inr text"
    and split: "splitIntoTokenChunks enc text 2000 = Inr chunks"
    and go: "proceeds requireConfirmation response"
    and dir: "chunkDir = TrimSuffix filePath (Ext filePath)"
    and sys: "prompt' = prompt @ [NL] @ ''Return the lines that you want to keep.''"
    and mk: "MkdirAll (files w) chunkDir = Inr files1"
    and i: "i < length chunks"
    and miss: "ReadFile (files w) (resultFileName chunkDir i) = Inl e0"
    and cw: "WriteFile (files w) (chunkFileName chunkDir i) (chunks ! i) = Inr filesC"
    and gen: "client i \<lparr>reqModel = model, systemMessage = prompt', userMessage = chunks ! i\<rparr> = Inl e"
    and k: "k < length chunks"
  shows "\<exists>err w'.
      ProcessWithClient enc client finish response model prompt filePath requireConfirmation w = (Some err, w')
    \<and> (\<exists>j e'. j < length chunks
          \<and> fst (processChunk client model j chunkDir prompt' (chunks ! j) (w\<lparr>files := files1\<rparr>)) = Inl e'
          \<and> err = ''failed to wait for all subtasks to complete: '' @ e'
          \<and> sublist (''chunk '' @ decimal (j + 1)) err)
    \<and> files w' (combinedFileName filePath) = files w (combinedFileName filePath)
    \<and> files w' (resultFileName chunkDir k)
        = files (snd (processChunk client model k chunkDir prompt' (chunks ! k) (w\<lparr>files := files1\<rparr>)))
            (resultFileName chunkDir k)"
proof -
  let ?wI = "w\<lparr>files := files1\<rparr>"
  let ?n = "length chunks"
  let ?st0 = "(replicate ?n ([] :: string), None :: error option, ?wI)"
  let ?T = "taskStep client model chunkDir prompt' chunks"
  let ?order = "taskOrder finish ?n"
  from mk have f1: "files1 = (files w)(chunkDir \<mapsto> Dir)" by (simp add: MkdirAll_Inr)
  obtain results fe w2 where rt: "foldl ?T ?st0 ?order = (results, fe, w2)"
    by (metis prod_cases3)
  then have rt': "runTasks client model chunkDir prompt' chunks finish ?wI = (results, fe, w2)"
    by (simp add: runTasks_def)
  have "ReadFile (files ?wI) (resultFileName chunkDir i) = Inl e0"
    using miss by (simp add: f1 ReadFile_def)
  moreover have "WriteFile (files ?wI) (chunkFileName chunkDir i) (chunks ! i)
      = Inr (files1(chunkFileName chunkDir i \<mapsto> File (chunks ! i)))"
    using cw by (auto simp: f1 WriteFile_def split: option.splits node.splits)
  ultimately have "fst (processChunk client model i chunkDir prompt' (chunks ! i) ?wI)
      = Inl (''failed to generate chat completion for chunk '' @ decimal (i + 1) @ '': '' @ e)"
    using gen by (simp add: processChunk_def Let_def)
  moreover have "i \<in> set ?order" using i by simp
  ultimately have "fst (snd (foldl ?T ?st0 ?order)) \<noteq> None"
    using tasks_error_raised [of ?order i client model chunkDir prompt' chunks ?st0] by simp
  with rt obtain e' where fe: "fe = Some e'" by auto
  have "fst (snd ?st0) = None" by simp
  moreover have "fst (snd (foldl ?T ?st0 ?order)) = Some e'" using rt fe by simp
  ultimately obtain j where j: "j \<in> set ?order"
    "fst (processChunk client model j chunkDir prompt' (chunks ! j) (snd (snd ?st0))) = Inl e'"
    using tasks_error_source [of ?order ?st0 client model chunkDir prompt' chunks e'] by auto
  from j(2) have "sublist (''chunk '' @ decimal (j + 1)) e'" by (rule processChunk_names)
  then have named: "sublist (''chunk '' @ decimal (j + 1)) (''failed to wait for all subtasks to complete: '' @ e')"
    using sublist_order.order_trans [OF _ sublist_append_leftI] by blast
  have run: "ProcessWithClient enc client finish response model prompt filePath requireConfirmation w
      = (Some (''failed to wait for all subtasks to complete: '' @ e'), w2)"
    using ProcessWithClient_tasks [OF doc split go mk [unfolded dir], of client finish model prompt]
      rt' [unfolded dir sys] fe by simp
  have "\<forall>j \<in> set ?order. combinedFileName filePath \<noteq> chunkFileName chunkDir j
      \<and> combinedFileName filePath \<noteq> resultFileName chunkDir j"
    by (simp add: dir)
  then have "files (snd (snd (foldl ?T ?st0 ?order))) (combinedFileName filePath)
      = files (snd (snd ?st0)) (combinedFileName filePath)"
    by (rule tasks_frame)
  then have comb: "files w2 (combinedFileName filePath) = files w (combinedFileName filePath)"
    using rt by (simp add: f1 dir)
  have "k \<in> set ?order" using k by simp
  then have "files (snd (snd (foldl ?T ?st0 ?order))) (resultFileName chunkDir k)
      = files (snd (processChunk client model k chunkDir prompt' (chunks ! k) (snd (snd ?st0)))) (resultFileName chunkDir k)"
    using tasks_own [of ?order k client model chunkDir prompt' chunks ?st0] by simp
  then have own: "files w2 (resultFileName chunkDir k)
      = files (snd (processChunk client model k chunkDir prompt' (chunks ! k) ?wI)) (resultFileName chunkDir k)"
    using rt by simp
  from j have "j < ?n" by simp
  with run j(2) named comb own show ?thesis by auto
qed

theorem C4_fail_fast_witness:
  "ReadFile (files twoLineWorld) ''d/doc.txt'' = Inr [CHR ''a'', NL, CHR ''b'']
    \<and> splitIntoTokenChunks (Inr heavy) [CHR ''a'', NL, CHR ''b''] 2000 = Inr [''a'', ''b'']
    \<and> MkdirAll (files twoLineWorld) ''d/doc'' = Inr ((files twoLineWorld)(''d/doc'' \<mapsto> Dir))
    \<and> ReadFile (files twoLineWorld) (resultFileName ''d/doc'' 1)
        = Inl ''open d/doc/result2.txt: no such file or directory''
    \<and> secondFails 1 \<lparr>reqModel = ''gpt-5-nano'',
          systemMessage = ''keep'' @ [NL] @ ''Return the lines that you want to keep.'',
          userMessage = [''a'', ''b''] ! 1\<rparr> = Inl ''mock error: simulated API failure''
    \<and> (\<exists>err w'.
        ProcessWithClient (Inr heavy) secondFails (\<lambda>i. i) [] ''gpt-5-nano'' ''keep'' ''d/doc.txt'' False twoLineWorld
          = (Some err, w')
      \<and> (\<exists>j e'. j < length [''a'', ''b'']
          \<and> fst (processChunk secondFails ''gpt-5-nano'' j ''d/doc''
                  (''keep'' @ [NL] @ ''Return the lines that you want to keep.'') ([''a'', ''b''] ! j)
                  (twoLineWorld\<lparr>files := (files twoLineWorld)(''d/doc'' \<mapsto> Dir)\<rparr>)) = Inl e'
          \<and> err = ''failed to wait for all subtasks to complete: '' @ e'
          \<and> sublist (''chunk '' @ decimal (j + 1)) err)
      \<and> files w' (combinedFileName ''d/doc.txt'') = files twoLineWorld (combinedFileName ''d/doc.txt'')
      \<and> files w' (resultFileName ''d/doc'' 0)
          = files (snd (processChunk secondFails ''gpt-5-nano'' 0 ''d/doc''
                  (''keep'' @ [NL] @ ''Return the lines that you want to keep.'') ([''a'', ''b''] ! 0)
                  (twoLineWorld\<lparr>files := (files twoLineWorld)(''d/doc'' \<mapsto> Dir)\<rparr>)))
              (resultFileName ''d/doc'' 0))"
proof -
  have doc: "ReadFile (files twoLineWorld) ''d/doc.txt'' = Inr [CHR ''a'', NL, CHR ''b'']"
    by (simp add: twoLineWorld_def ReadFile_def)
  have split: "splitIntoTokenChunks (Inr heavy) [CHR ''a'', NL, CHR ''b''] 2000 = Inr [''a'', ''b'']"
    by (rule demo_split_two)
  have go: "proceeds False []" by (simp add: proceeds_def)
  have dir: "''d/doc'' = TrimSuffix ''d/doc.txt'' (Ext ''d/doc.txt'')" by (simp add: demo_dir)
  have sys: "''keep'' @ [NL] @ ''Return the lines that you want to keep.''
      = ''keep'' @ [NL] @ ''Return the lines that you want to keep.''" by simp
  have mk: "MkdirAll (files twoLineWorld) ''d/doc'' = Inr ((files twoLineWorld)(''d/doc'' \<mapsto> Dir))"
    by (simp add: twoLineWorld_def MkdirAll_def)
  have i: "1 < length [''a'', ''b'']" and k: "0 < length [''a'', ''b'']" by simp_all
  have miss: "ReadFile (files twoLineWorld) (resultFileName ''d/doc'' 1)
      = Inl ''open d/doc/result2.txt: no such file or directory''"
    unfolding demo_names by (simp add: twoLineWorld_def ReadFile_def)
  have cw: "WriteFile (files twoLineWorld) (chunkFileName ''d/doc'' 1) ([''a'', ''b''] ! 1)
      = Inr ((files twoLineWorld)(''d/doc/chunk2.txt'' \<mapsto> File ''b''))"
    unfolding demo_names by (simp add: twoLineWorld_def WriteFile_def)
  have gen: "secondFails 1 \<lparr>reqModel = ''gpt-5-nano'',
        systemMessage = ''keep'' @ [NL] @ ''Return the lines that you want to keep.'',
        userMessage = [''a'', ''b''] ! 1\<rparr> = Inl ''mock error: simulated API failure''"
    by (simp add: secondFails_def)
  from C4_fail_fast [where client = secondFails and w = twoLineWorld and i = 1 and k = 0
      and finish = "\<lambda>i. i" and model = "''gpt-5-nano''" and prompt = "''keep''",
      OF doc split go dir sys mk i miss cw gen k] doc split mk miss gen
  show ?thesis by blast
qed





end
